theory Spec2Isabelle
  imports Main "HOL-Library.Word"
begin

section \<open>JavaScript strings\<close>

text \<open>
  A JavaScript string is a sequence of 16-bit code units: \<open>length\<close> and \<open>slice\<close> count
  code units, not bytes and not code points.
\<close>

type_synonym code_unit = "16 word"
type_synonym jsstring = "code_unit list"

definition ascii :: "string \<Rightarrow> jsstring" where
  "ascii s = map (\<lambda>c. of_nat (of_char c)) s"

text \<open>\<open>String.prototype.slice(a, b)\<close> for \<open>0 \<le> a \<le> b\<close>; the end is clamped to the length.\<close>

definition slice :: "'u list \<Rightarrow> nat \<Rightarrow> nat \<Rightarrow> 'u list" where
  "slice s a b = take (b - a) (drop a s)"

text \<open>
  A non-negative integer inside a template literal (\<open>`${chunkIndex}`\<close>) is rendered in
  decimal (integers below \<open>10^21\<close>).
\<close>

definition digit_unit :: "nat \<Rightarrow> code_unit" where
  "digit_unit d = of_nat (48 + d)"

fun decimal :: "nat \<Rightarrow> jsstring" where
  "decimal n = (if n < 10 then [digit_unit n] else decimal (n div 10) @ [digit_unit (n mod 10)])"

declare decimal.simps [simp del]

definition is_high_surrogate :: "code_unit \<Rightarrow> bool" where
  "is_high_surrogate c = (0xD800 \<le> c \<and> c \<le> 0xDBFF)"

definition is_low_surrogate :: "code_unit \<Rightarrow> bool" where
  "is_low_surrogate c = (0xDC00 \<le> c \<and> c \<le> 0xDFFF)"

text \<open>
  \<open>new TextEncoder().encode(s).length\<close>, the size \<open>storeInCache\<close> reports: the number of
  UTF-8 bytes of \<open>s\<close>. A surrogate pair is one code point of four bytes; a lone surrogate
  is replaced by U+FFFD, three bytes.
\<close>

fun utf8_length :: "jsstring \<Rightarrow> nat" where
  "utf8_length [] = 0"
| "utf8_length [c] = (if c < 0x80 then 1 else if c < 0x800 then 2 else 3)"
| "utf8_length (c # d # cs) =
     (if c < 0x80 then 1 + utf8_length (d # cs)
      else if c < 0x800 then 2 + utf8_length (d # cs)
      else if is_high_surrogate c \<and> is_low_surrogate d then 4 + utf8_length cs
      else 3 + utf8_length (d # cs))"

section \<open>Errors and the collaborators outside the repository\<close>

datatype error =
    TypeError
  | SyntaxError
  | CacheMissError jsstring
  | Failure jsstring

text \<open>
  The code is generic in the payload type \<open>T\<close> and calls four things it does not define:
  \<open>JSON.stringify\<close>, \<open>JSON.parse\<close>, the producer \<open>fetchData\<close> and the cache of
  \<open>unstable_cache\<close>. They are parameters of the model.
  \<^item> \<open>stringify\<close>: \<open>Inr (Some text)\<close>, \<open>Inr None\<close> when \<open>JSON.stringify\<close> returns
    \<open>undefined\<close>, \<open>Inl e\<close> when it throws.
  \<^item> \<open>parse\<close>: the value, or \<open>Inl e\<close> when \<open>JSON.parse\<close> throws.
  \<^item> \<open>fetchData k\<close>: the outcome of the call of the producer that follows \<open>k\<close> earlier calls.
  \<^item> \<open>readThrows key\<close>, \<open>writeThrows key\<close>: the error, if any, with which the external
    cache fails when called for \<open>key\<close> by \<open>getCachedValue\<close>, respectively
    \<open>storeCachedValue\<close>.
\<close>

record 'a env =
  stringify :: "'a \<Rightarrow> error + jsstring option"
  parse :: "jsstring \<Rightarrow> error + 'a"
  fetchData :: "nat \<Rightarrow> error + 'a"
  readThrows :: "jsstring \<Rightarrow> error option"
  writeThrows :: "jsstring \<Rightarrow> error option"

section \<open>The splitter\<close>

definition SAFE_CHUNK_SIZE_BYTES :: nat where
  "SAFE_CHUNK_SIZE_BYTES = 1500000"

text \<open>
  The \<open>for\<close> loop of \<open>splitIntoChunks\<close>. With \<open>maxChunkSizeBytes = 0\<close> and a non-empty
  text the loop never ends; not returning is the value \<open>None\<close>.
\<close>

partial_function (option) chunk_loop ::
  "'u list \<Rightarrow> nat \<Rightarrow> nat \<Rightarrow> 'u list list \<Rightarrow> 'u list list option" where
  "chunk_loop jsonString maxChunkSizeBytes startIndex chunks =
     (if startIndex < length jsonString
      then chunk_loop jsonString maxChunkSizeBytes (startIndex + maxChunkSizeBytes)
             (chunks @ [slice jsonString startIndex (startIndex + maxChunkSizeBytes)])
      else Some chunks)"

text \<open>
  \<open>splitIntoChunks\<close> returns \<open>{ chunks, jsonString }\<close>. Reading \<open>.length\<close> of
  \<open>undefined\<close> is a \<open>TypeError\<close>.
\<close>

definition splitIntoChunks ::
  "'a env \<Rightarrow> 'a \<Rightarrow> nat \<Rightarrow> (error + jsstring list \<times> jsstring) option" where
  "splitIntoChunks E data maxChunkSizeBytes =
     (case stringify E data of
        Inl e \<Rightarrow> Some (Inl e)
      | Inr None \<Rightarrow> Some (Inl TypeError)
      | Inr (Some jsonString) \<Rightarrow>
          (case chunk_loop jsonString maxChunkSizeBytes 0 [] of
             None \<Rightarrow> None
           | Some chunks \<Rightarrow> Some (Inr (chunks, jsonString))))"

definition reassembleChunks :: "'a env \<Rightarrow> jsstring list \<Rightarrow> error + 'a" where
  "reassembleChunks E chunks = parse E (concat chunks)"

definition createChunkKey :: "jsstring \<Rightarrow> nat \<Rightarrow> jsstring" where
  "createChunkKey prefix chunkIndex = prefix @ ascii ''::chunk'' @ decimal chunkIndex"

section \<open>The cache behind \<open>unstable_cache\<close>\<close>

text \<open>
  What is cached: the metadata object \<open>{ chunkCount }\<close> or the text of a chunk.
\<close>

datatype cached = Metadata nat | ChunkData jsstring

text \<open>
  \<open>requestStore\<close> is the module-level \<open>Map\<close> of the source; \<open>cacheEntries\<close> is the
  content of the external cache; \<open>fetchCalls\<close> counts the calls of the producer.
  The source calls \<open>requestStore\<close> request-scoped: a new serverless invocation starts
  with an empty one. (The second version of the file keeps a \<open>Map\<close> local to each call
  instead, which a read always finds empty.)
\<close>

record world =
  requestStore :: "jsstring \<rightharpoonup> cached"
  cacheEntries :: "jsstring \<rightharpoonup> cached"
  fetchCalls :: nat

text \<open>
  Modelled from the spec: \<open>unstable_cache\<close> of \<open>next/cache\<close> is not part of the repository.
  Section 4.3 and 6 of the specification give the external cache as a key-value store
  whose calls are independent and may fail, and the comments of \<open>getCachedValue\<close> say how
  the wrapped function is used: if an entry exists for the key the cached value is
  returned without executing the function; otherwise the function executes, and its
  result is cached and returned, or its error is thrown. \<open>throws\<close> is the failure of the
  external cache itself, if any, for this call. Expiry and eviction happen between calls
  and are changes of \<open>cacheEntries\<close> made by the environment.
\<close>

definition unstable_cache ::
  "error option \<Rightarrow> (world \<Rightarrow> error + cached) \<Rightarrow> jsstring \<Rightarrow> world \<Rightarrow> (error + cached) \<times> world" where
  "unstable_cache throws fn cacheKey w =
     (case throws of
        Some e \<Rightarrow> (Inl e, w)
      | None \<Rightarrow>
          (case cacheEntries w cacheKey of
             Some v \<Rightarrow> (Inr v, w)
           | None \<Rightarrow>
               (case fn w of
                  Inl e \<Rightarrow> (Inl e, w)
                | Inr v \<Rightarrow> (Inr v, w\<lparr>cacheEntries := (cacheEntries w)(cacheKey \<mapsto> v)\<rparr>))))"

text \<open>The key \<open>`${key}:${revalidateSeconds}`\<close> of both \<open>storeCachedValue\<close> and \<open>getCachedValue\<close>.\<close>

definition cacheKeyOf :: "jsstring \<Rightarrow> nat \<Rightarrow> jsstring" where
  "cacheKeyOf key revalidateSeconds = key @ ascii '':'' @ decimal revalidateSeconds"

text \<open>The function both of them wrap: it reads \<open>requestStore\<close> and throws when the key is not there.\<close>

definition readRequestStore :: "jsstring \<Rightarrow> world \<Rightarrow> error + cached" where
  "readRequestStore cacheKey w =
     (case requestStore w cacheKey of
        None \<Rightarrow> Inl (CacheMissError cacheKey)
      | Some stored \<Rightarrow> Inr stored)"

text \<open>
  An \<open>async\<close> function is a function from the world to its outcome (\<open>Inl\<close> a rejection)
  and the new world. The tags given to \<open>unstable_cache\<close> play no part in a lookup.
\<close>

definition storeCachedValue ::
  "'a env \<Rightarrow> jsstring \<Rightarrow> cached \<Rightarrow> nat \<Rightarrow> jsstring \<Rightarrow> world \<Rightarrow> (error + unit) \<times> world" where
  "storeCachedValue E key v revalidateSeconds tagPrefix w =
     (let cacheKey = cacheKeyOf key revalidateSeconds;
          w1 = w\<lparr>requestStore := (requestStore w)(cacheKey \<mapsto> v)\<rparr>
      in case unstable_cache (writeThrows E cacheKey) (readRequestStore cacheKey) cacheKey w1 of
           (Inl e, w2) \<Rightarrow> (Inl e, w2)
         | (Inr _, w2) \<Rightarrow> (Inr (), w2))"

definition getCachedValue ::
  "'a env \<Rightarrow> jsstring \<Rightarrow> nat \<Rightarrow> jsstring \<Rightarrow> world \<Rightarrow> (error + cached option) \<times> world" where
  "getCachedValue E key revalidateSeconds tagPrefix w =
     (let cacheKey = cacheKeyOf key revalidateSeconds
      in case unstable_cache (readThrows E cacheKey) (readRequestStore cacheKey) cacheKey w of
           (Inl e, w1) \<Rightarrow> (Inr None, w1)
         | (Inr v, w1) \<Rightarrow> (Inr (Some v), w1))"

definition storeMetadata ::
  "'a env \<Rightarrow> jsstring \<Rightarrow> nat \<Rightarrow> nat \<Rightarrow> world \<Rightarrow> (error + unit) \<times> world" where
  "storeMetadata E metadataKey chunkCount revalidateSeconds w =
     storeCachedValue E metadataKey (Metadata chunkCount) revalidateSeconds (ascii ''metadata'') w"

definition retrieveMetadata ::
  "'a env \<Rightarrow> jsstring \<Rightarrow> nat \<Rightarrow> world \<Rightarrow> (error + cached option) \<times> world" where
  "retrieveMetadata E metadataKey revalidateSeconds w =
     (case getCachedValue E metadataKey revalidateSeconds (ascii ''metadata'') w of
        (Inl e, w1) \<Rightarrow> (Inr None, w1)
      | (Inr result, w1) \<Rightarrow> (Inr result, w1))"

definition storeChunk ::
  "'a env \<Rightarrow> jsstring \<Rightarrow> jsstring \<Rightarrow> nat \<Rightarrow> world \<Rightarrow> (error + unit) \<times> world" where
  "storeChunk E chunkKey chunkData revalidateSeconds w =
     storeCachedValue E chunkKey (ChunkData chunkData) revalidateSeconds (ascii ''chunk'') w"

definition retrieveChunk ::
  "'a env \<Rightarrow> jsstring \<Rightarrow> nat \<Rightarrow> world \<Rightarrow> (error + cached option) \<times> world" where
  "retrieveChunk E chunkKey revalidateSeconds w =
     (case getCachedValue E chunkKey revalidateSeconds (ascii ''chunk'') w of
        (Inl e, w1) \<Rightarrow> (Inr None, w1)
      | (Inr result, w1) \<Rightarrow> (Inr result, w1))"

section \<open>\<open>Promise.all\<close>\<close>

text \<open>
  Every operation handed to \<open>Promise.all\<close> runs, whatever the others do. The operations
  are run here in the order of the array; operations on different keys commute. The
  result is the list of all values, or the first rejection.
\<close>

fun run_all ::
  "('k \<Rightarrow> world \<Rightarrow> (error + 'r) \<times> world) \<Rightarrow> 'k list \<Rightarrow> world \<Rightarrow> (error + 'r) list \<times> world" where
  "run_all f [] w = ([], w)"
| "run_all f (k # ks) w =
     (case f k w of (r, w1) \<Rightarrow> (case run_all f ks w1 of (rs, w2) \<Rightarrow> (r # rs, w2)))"

fun promise_all :: "(error + 'r) list \<Rightarrow> error + 'r list" where
  "promise_all [] = Inr []"
| "promise_all (Inl e # rs) = Inl e"
| "promise_all (Inr x # rs) = (case promise_all rs of Inl e \<Rightarrow> Inl e | Inr xs \<Rightarrow> Inr (x # xs))"

section \<open>\<open>createChunkedCache\<close>\<close>

definition metadataKeyOf :: "jsstring \<Rightarrow> jsstring" where
  "metadataKeyOf cacheKeyPrefix = ascii ''metadata::'' @ cacheKeyPrefix"

text \<open>
  What the cached metadata value gives when it is used as \<open>{ chunkCount }\<close>: a string has
  no \<open>chunkCount\<close> (\<open>undefined\<close>, and \<open>Array.from\<close> then builds no key), and the empty
  string is falsy. \<open>join\<close> renders an object as \<open>[object Object]\<close>.
\<close>

fun falsy :: "cached \<Rightarrow> bool" where
  "falsy (Metadata n) = False"
| "falsy (ChunkData s) = (s = [])"

fun chunkCountOf :: "cached \<Rightarrow> nat option" where
  "chunkCountOf (Metadata n) = Some n"
| "chunkCountOf (ChunkData s) = None"

fun chunkText :: "cached \<Rightarrow> jsstring" where
  "chunkText (ChunkData s) = s"
| "chunkText (Metadata n) = ascii ''[object Object]''"

definition retrieveFromCache ::
  "'a env \<Rightarrow> jsstring \<Rightarrow> nat \<Rightarrow> world \<Rightarrow> (error + ('a \<times> nat option) option) \<times> world" where
  "retrieveFromCache E cacheKeyPrefix revalidateSeconds w =
     (case retrieveMetadata E (metadataKeyOf cacheKeyPrefix) revalidateSeconds w of
        (Inl e, w1) \<Rightarrow> (Inl e, w1)
      | (Inr None, w1) \<Rightarrow> (Inr None, w1)
      | (Inr (Some metadata), w1) \<Rightarrow>
          if falsy metadata then (Inr None, w1)
          else
            (let chunkKeys =
                   map (createChunkKey cacheKeyPrefix)
                     [0..<(case chunkCountOf metadata of None \<Rightarrow> 0 | Some n \<Rightarrow> n)]
             in case run_all (\<lambda>chunkKey. retrieveChunk E chunkKey revalidateSeconds) chunkKeys w1 of
                  (results, w2) \<Rightarrow>
                    (case promise_all results of
                       Inl e \<Rightarrow> (Inl e, w2)
                     | Inr chunks \<Rightarrow>
                         (let validChunks = map the (filter (\<lambda>chunk. chunk \<noteq> None) chunks)
                          in case reassembleChunks E (map chunkText validChunks) of
                               Inl e \<Rightarrow> (Inr None, w2)
                             | Inr data \<Rightarrow> (Inr (Some (data, chunkCountOf metadata)), w2)))))"

text \<open>
  The version of the file kept as \<open>src/unnamed/part_000\<close> does one thing more between
  the filter and the reassembly: it compares the number of chunks that are left with the
  \<open>chunkCount\<close> of the metadata and reports a miss when they differ. This is that part of
  its \<open>retrieveFromCache\<close>, as a function of the metadata count and the retrieved chunks.
\<close>

definition validateAndReassemble_part_000 ::
  "'a env \<Rightarrow> nat \<Rightarrow> cached option list \<Rightarrow> ('a \<times> nat) option" where
  "validateAndReassemble_part_000 E expectedChunkCount chunks =
     (let validChunks = map the (filter (\<lambda>chunk. chunk \<noteq> None) chunks)
      in if length validChunks \<noteq> expectedChunkCount then None
         else
           (case reassembleChunks E (map chunkText validChunks) of
              Inl e \<Rightarrow> None
            | Inr data \<Rightarrow> Some (data, length validChunks)))"

definition storeInCache ::
  "'a env \<Rightarrow> jsstring \<Rightarrow> nat \<Rightarrow> 'a \<Rightarrow> world \<Rightarrow> ((error + unit) \<times> world) option" where
  "storeInCache E cacheKeyPrefix revalidateSeconds data w =
     (case splitIntoChunks E data SAFE_CHUNK_SIZE_BYTES of
        None \<Rightarrow> None
      | Some (Inl e) \<Rightarrow> Some (Inl e, w)
      | Some (Inr (chunks, jsonString)) \<Rightarrow>
          (case storeMetadata E (metadataKeyOf cacheKeyPrefix) (length chunks) revalidateSeconds w of
             (r0, w1) \<Rightarrow>
               (case run_all
                       (\<lambda>(index, chunk).
                          storeChunk E (createChunkKey cacheKeyPrefix index) chunk revalidateSeconds)
                       (enumerate 0 chunks) w1 of
                  (rs, w2) \<Rightarrow>
                    (case promise_all (r0 # rs) of
                       Inl e \<Rightarrow> Some (Inl e, w2)
                     | Inr _ \<Rightarrow> Some (Inr (), w2)))))"

text \<open>
  \<open>get\<close>, the one operation of the object \<open>createChunkedCache\<close> returns, as a function of
  the arguments of \<open>createChunkedCache\<close> (\<open>revalidateSeconds\<close> is 3600 when the caller
  gives none). \<open>None\<close> is a call that does not return; \<open>Inl e\<close> is a rejection with \<open>e\<close>.
\<close>

definition get ::
  "'a env \<Rightarrow> jsstring \<Rightarrow> nat \<Rightarrow> world \<Rightarrow> ((error + 'a) \<times> world) option" where
  "get E cacheKeyPrefix revalidateSeconds w =
     (case retrieveFromCache E cacheKeyPrefix revalidateSeconds w of
        (Inl e, w1) \<Rightarrow> Some (Inl e, w1)
      | (Inr (Some (data, chunkCount)), w1) \<Rightarrow> Some (Inr data, w1)
      | (Inr None, w1) \<Rightarrow>
          (let w2 = w1\<lparr>fetchCalls := Suc (fetchCalls w1)\<rparr>
           in case fetchData E (fetchCalls w1) of
                Inl e \<Rightarrow> Some (Inl e, w2)
              | Inr freshData \<Rightarrow>
                  (case storeInCache E cacheKeyPrefix revalidateSeconds freshData w2 of
                     None \<Rightarrow> None
                   | Some (Inl e, w3) \<Rightarrow> Some (Inl e, w3)
                   | Some (Inr _, w3) \<Rightarrow> Some (Inr freshData, w3))))"

section \<open>A concrete payload type: a string or \<open>undefined\<close>\<close>

text \<open>
  The theorems below hold for every payload type and every \<open>JSON.stringify\<close> and
  \<open>JSON.parse\<close>. To run the code on concrete inputs, payloads that are JavaScript strings
  or the value \<open>undefined\<close> are enough; this is what \<open>JSON.stringify\<close> and \<open>JSON.parse\<close>
  do on them (ECMA-262, QuoteJSONString and the JSON string grammar).
\<close>

datatype jsvalue = JSUndefined | JSString jsstring

definition hex_digit :: "nat \<Rightarrow> code_unit" where
  "hex_digit d = (if d < 10 then of_nat (48 + d) else of_nat (87 + d))"

definition unicode_escape :: "code_unit \<Rightarrow> jsstring" where
  "unicode_escape c =
     [0x5C, 0x75, hex_digit (unat c div 4096), hex_digit (unat c div 256 mod 16),
      hex_digit (unat c div 16 mod 16), hex_digit (unat c mod 16)]"

definition quote_unit :: "code_unit \<Rightarrow> jsstring" where
  "quote_unit c =
     (if c = 0x08 then [0x5C, 0x62]
      else if c = 0x09 then [0x5C, 0x74]
      else if c = 0x0A then [0x5C, 0x6E]
      else if c = 0x0C then [0x5C, 0x66]
      else if c = 0x0D then [0x5C, 0x72]
      else if c = 0x22 then [0x5C, 0x22]
      else if c = 0x5C then [0x5C, 0x5C]
      else if c < 0x20 \<or> is_high_surrogate c \<or> is_low_surrogate c then unicode_escape c
      else [c])"

text \<open>A surrogate pair is copied; a lone surrogate is escaped.\<close>

fun quote_units :: "jsstring \<Rightarrow> jsstring" where
  "quote_units [] = []"
| "quote_units [c] = quote_unit c"
| "quote_units (c # d # cs) =
     (if is_high_surrogate c \<and> is_low_surrogate d then c # d # quote_units cs
      else quote_unit c @ quote_units (d # cs))"

definition QuoteJSONString :: "jsstring \<Rightarrow> jsstring" where
  "QuoteJSONString s = 0x22 # quote_units s @ [0x22]"

definition JSON_stringify :: "jsvalue \<Rightarrow> error + jsstring option" where
  "JSON_stringify v = (case v of JSUndefined \<Rightarrow> Inr None | JSString s \<Rightarrow> Inr (Some (QuoteJSONString s)))"

definition hex_value :: "code_unit \<Rightarrow> nat option" where
  "hex_value c =
     (if 0x30 \<le> c \<and> c \<le> 0x39 then Some (unat c - 48)
      else if 0x41 \<le> c \<and> c \<le> 0x46 then Some (unat c - 55)
      else if 0x61 \<le> c \<and> c \<le> 0x66 then Some (unat c - 87)
      else None)"

definition simple_escape :: "code_unit \<Rightarrow> code_unit option" where
  "simple_escape c =
     (if c = 0x22 then Some 0x22
      else if c = 0x5C then Some 0x5C
      else if c = 0x2F then Some 0x2F
      else if c = 0x62 then Some 0x08
      else if c = 0x66 then Some 0x0C
      else if c = 0x6E then Some 0x0A
      else if c = 0x72 then Some 0x0D
      else if c = 0x74 then Some 0x09
      else None)"

definition is_json_space :: "code_unit \<Rightarrow> bool" where
  "is_json_space c = (c = 0x20 \<or> c = 0x09 \<or> c = 0x0A \<or> c = 0x0D)"

text \<open>
  The characters of a JSON string after its opening quote: the string they denote and
  the text after the closing quote, or \<open>None\<close> when they are not well formed.
\<close>

fun string_body :: "jsstring \<Rightarrow> (jsstring \<times> jsstring) option" where
  "string_body [] = None"
| "string_body (c # cs) =
     (if c = 0x22 then Some ([], cs)
      else if c = 0x5C then
        (case cs of
           [] \<Rightarrow> None
         | e # es \<Rightarrow>
             (if e = 0x75 then
                (case es of
                   h1 # h2 # h3 # h4 # rest \<Rightarrow>
                     (case (hex_value h1, hex_value h2, hex_value h3, hex_value h4) of
                        (Some a, Some b, Some c', Some d) \<Rightarrow>
                          map_option (\<lambda>(s, r). (of_nat (4096 * a + 256 * b + 16 * c' + d) # s, r))
                            (string_body rest)
                      | _ \<Rightarrow> None)
                 | _ \<Rightarrow> None)
              else
                (case simple_escape e of
                   None \<Rightarrow> None
                 | Some u \<Rightarrow> map_option (\<lambda>(s, r). (u # s, r)) (string_body es))))
      else if c < 0x20 then None
      else map_option (\<lambda>(s, r). (c # s, r)) (string_body cs))"

text \<open>
  \<open>JSON.parse\<close> at payload type string: a text that is one JSON string, with white space
  around it allowed, yields that string. Every other text is a \<open>SyntaxError\<close> here;
  \<open>JSON.parse\<close> itself also accepts the texts of numbers, arrays, objects and literals,
  whose values are not strings.
\<close>

definition JSON_parse :: "jsstring \<Rightarrow> error + jsvalue" where
  "JSON_parse text =
     (case dropWhile is_json_space text of
        [] \<Rightarrow> Inl SyntaxError
      | c # cs \<Rightarrow>
          if c = 0x22 then
            (case string_body cs of
               None \<Rightarrow> Inl SyntaxError
             | Some (s, rest) \<Rightarrow>
                 if dropWhile is_json_space rest = [] then Inr (JSString s) else Inl SyntaxError)
          else Inl SyntaxError)"

text \<open>An environment in which the external cache never fails.\<close>

definition js_env :: "(nat \<Rightarrow> error + jsvalue) \<Rightarrow> jsvalue env" where
  "js_env producer =
     \<lparr>stringify = JSON_stringify, parse = JSON_parse, fetchData = producer,
      readThrows = (\<lambda>key. None), writeThrows = (\<lambda>key. None)\<rparr>"

definition empty_world :: world where
  "empty_world = \<lparr>requestStore = Map.empty, cacheEntries = Map.empty, fetchCalls = 0\<rparr>"

section \<open>The splitter terminates and loses nothing\<close>

lemma chunk_loop_total:
  assumes "0 < B"
  shows "\<exists>cs. chunk_loop s B i acc = Some (acc @ cs) \<and> concat cs = drop i s
           \<and> (\<forall>c\<in>set cs. length c \<le> B)"
proof (induction "length s - i" arbitrary: i acc rule: less_induct)
  case less
  show ?case
  proof (cases "i < length s")
    case False
    then show ?thesis by (subst chunk_loop.simps) simp
  next
    case True
    let ?c = "slice s i (i + B)"
    from True assms have "length s - (i + B) < length s - i" by arith
    from less [OF this, of "acc @ [?c]"]
    obtain cs where cs: "chunk_loop s B (i + B) (acc @ [?c]) = Some ((acc @ [?c]) @ cs)"
      "concat cs = drop (i + B) s" "\<forall>c\<in>set cs. length c \<le> B"
      by blast
    have "chunk_loop s B i acc = Some (acc @ (?c # cs))"
      using True cs(1) by (subst chunk_loop.simps) simp
    moreover have "concat (?c # cs) = drop i s"
    proof -
      have "take B (drop i s) @ drop (i + B) s = drop i s"
        by (metis add.commute append_take_drop_id drop_drop)
      with cs(2) show ?thesis by (simp add: slice_def)
    qed
    moreover have "\<forall>c\<in>set (?c # cs). length c \<le> B"
      using cs(3) by (simp add: slice_def)
    ultimately show ?thesis by blast
  qed
qed

lemma chunk_loop_zero_Some:
  assumes "chunk_loop s B i acc = Some r"
  shows "B = 0 \<longrightarrow> \<not> i < length s"
proof (rule chunk_loop.raw_induct [where P = "\<lambda>s B i acc r. B = 0 \<longrightarrow> \<not> i < length s"])
  show "chunk_loop s B i acc = Some r" by (rule assms)
next
  fix f :: "'a list \<Rightarrow> nat \<Rightarrow> nat \<Rightarrow> 'a list list \<Rightarrow> 'a list list option"
    and s B i acc r
  assume IH: "\<And>s B i acc r. f s B i acc = Some r \<Longrightarrow> B = 0 \<longrightarrow> \<not> i < length s"
    and step: "(if i < length s then f s B (i + B) (acc @ [slice s i (i + B)]) else Some acc) = Some r"
  show "B = 0 \<longrightarrow> \<not> i < length s"
  proof (cases "i < length s")
    case True
    with step have "f s B (i + B) (acc @ [slice s i (i + B)]) = Some r" by simp
    from IH [OF this] True show ?thesis by auto
  next
    case False
    then show ?thesis by simp
  qed
qed

text \<open>With a bound of zero the loop does not return on a non-empty text.\<close>

lemma chunk_loop_zero_None: "i < length s \<Longrightarrow> chunk_loop s 0 i acc = None"
  using chunk_loop_zero_Some [of s 0 i acc] by (cases "chunk_loop s 0 i acc") auto

lemma chunk_loop_chunks:
  assumes "0 < B"
  obtains chunks where "chunk_loop s B 0 [] = Some chunks" and "concat chunks = s"
    and "\<And>c. c \<in> set chunks \<Longrightarrow> length c \<le> B"
  using chunk_loop_total [OF assms, of s 0 "[]"] by auto

lemma splitIntoChunks_text:
  assumes "0 < B" and "stringify E data = Inr (Some text)"
  obtains chunks where "splitIntoChunks E data B = Some (Inr (chunks, text))"
    and "concat chunks = text" and "\<And>c. c \<in> set chunks \<Longrightarrow> length c \<le> B"
proof -
  from chunk_loop_chunks [OF assms(1), of "text"] obtain chunks where
    c: "chunk_loop text B 0 [] = Some chunks" "concat chunks = text"
      "\<And>c. c \<in> set chunks \<Longrightarrow> length c \<le> B"
    by blast
  have "splitIntoChunks E data B = Some (Inr (chunks, text))"
    using assms(2) c(1) by (simp add: splitIntoChunks_def)
  with c(2,3) that show thesis by blast
qed

text \<open>What the splitter does bound is the number of code units of a chunk.\<close>

lemma splitIntoChunks_code_units:
  assumes "0 < B" and "splitIntoChunks E data B = Some (Inr (chunks, text))" and "c \<in> set chunks"
  shows "length c \<le> B"
proof -
  from assms(2) have s: "stringify E data = Inr (Some text)"
    by (auto simp: splitIntoChunks_def split: sum.splits option.splits)
  from splitIntoChunks_text [OF assms(1) s] assms(2,3) show ?thesis
    by (metis Pair_inject option.inject sum.inject(2))
qed

lemma splitIntoChunks_SAFE_returns: "splitIntoChunks E data SAFE_CHUNK_SIZE_BYTES \<noteq> None"
proof (cases "stringify E data")
  case (Inl e)
  then show ?thesis by (simp add: splitIntoChunks_def)
next
  case (Inr t)
  show ?thesis
  proof (cases t)
    case None
    with Inr show ?thesis by (simp add: splitIntoChunks_def)
  next
    case (Some js)
    have "0 < SAFE_CHUNK_SIZE_BYTES" by (simp add: SAFE_CHUNK_SIZE_BYTES_def)
    from splitIntoChunks_text [OF this, of E data js] Inr Some show ?thesis by auto
  qed
qed

section \<open>Concatenation and round trip\<close>

lemma stringify_js_abcd:
  "stringify (js_env p) (JSString [0x61, 0x62, 0x63, 0x64]) = Inr (Some [0x22, 0x61, 0x62, 0x63, 0x64, 0x22])"
  by (simp add: js_env_def JSON_stringify_def QuoteJSONString_def quote_unit_def
      is_high_surrogate_def is_low_surrogate_def)

lemma parse_js_abcd:
  "parse (js_env p) [0x22, 0x61, 0x62, 0x63, 0x64, 0x22] = Inr (JSString [0x61, 0x62, 0x63, 0x64])"
  by (simp add: js_env_def JSON_parse_def is_json_space_def)

text \<open>
  C5: for every text and every positive bound, the chunks of \<open>splitIntoChunks\<close>,
  concatenated in index order, are the text exactly; \<open>reassembleChunks\<close> therefore parses
  the text that was split. The text may be empty and its length may be a multiple of the
  bound.
\<close>

theorem splitIntoChunks_concat:
  assumes "0 < B" and "stringify E data = Inr (Some jsonString)"
  shows "\<exists>chunks. splitIntoChunks E data B = Some (Inr (chunks, jsonString))
           \<and> concat chunks = jsonString
           \<and> reassembleChunks E chunks = parse E jsonString"
proof -
  from splitIntoChunks_text [OF assms] obtain chunks where
    "splitIntoChunks E data B = Some (Inr (chunks, jsonString))" "concat chunks = jsonString"
    by blast
  then show ?thesis by (auto simp: reassembleChunks_def)
qed

theorem splitIntoChunks_concat_witness:
  "(0::nat) < 3
   \<and> stringify (js_env (\<lambda>k. Inl TypeError)) (JSString [0x61, 0x62, 0x63, 0x64])
       = Inr (Some [0x22, 0x61, 0x62, 0x63, 0x64, 0x22])
   \<and> (\<exists>chunks. splitIntoChunks (js_env (\<lambda>k. Inl TypeError)) (JSString [0x61, 0x62, 0x63, 0x64]) 3
                  = Some (Inr (chunks, [0x22, 0x61, 0x62, 0x63, 0x64, 0x22]))
         \<and> concat chunks = [0x22, 0x61, 0x62, 0x63, 0x64, 0x22]
         \<and> reassembleChunks (js_env (\<lambda>k. Inl TypeError)) chunks
             = parse (js_env (\<lambda>k. Inl TypeError)) [0x22, 0x61, 0x62, 0x63, 0x64, 0x22])"
  using splitIntoChunks_concat [of 3 "js_env (\<lambda>k. Inl TypeError)" "JSString [0x61, 0x62, 0x63, 0x64]",
      OF _ stringify_js_abcd]
  by (simp add: stringify_js_abcd)

text \<open>The two boundary cases, run: the empty text has no chunk, and a text whose length
  is a multiple of the bound has no empty last chunk.\<close>

lemma chunk_loop_empty: "chunk_loop [] B 0 [] = Some []"
  by (subst chunk_loop.simps) simp

lemma chunk_loop_exact_multiple:
  "chunk_loop [0x22, 0x61, 0x62, 0x63, 0x64, 0x22 :: code_unit] 3 0 []
     = Some [[0x22, 0x61, 0x62], [0x63, 0x64, 0x22]]"
  by (simp add: chunk_loop.simps [of _ _ 0] chunk_loop.simps [of _ _ 3] chunk_loop.simps [of _ _ 6]
      slice_def)

text \<open>
  C4: for every payload that the serializer round-trips (\<open>JSON.parse\<close> of its
  \<open>JSON.stringify\<close> text is the payload) and every positive bound, parsing the
  reassembled chunks of the payload gives the payload back.
\<close>

theorem split_reassemble_roundtrip:
  assumes "0 < B" and "stringify E P = Inr (Some jsonString)" and "parse E jsonString = Inr P"
  shows "\<exists>chunks. splitIntoChunks E P B = Some (Inr (chunks, jsonString))
           \<and> reassembleChunks E chunks = Inr P"
proof -
  from splitIntoChunks_text [OF assms(1,2)] obtain chunks where
    "splitIntoChunks E P B = Some (Inr (chunks, jsonString))" "concat chunks = jsonString"
    by blast
  with assms(3) show ?thesis by (auto simp: reassembleChunks_def)
qed

theorem split_reassemble_roundtrip_witness:
  "(0::nat) < 3
   \<and> stringify (js_env (\<lambda>k. Inl TypeError)) (JSString [0x61, 0x62, 0x63, 0x64])
       = Inr (Some [0x22, 0x61, 0x62, 0x63, 0x64, 0x22])
   \<and> parse (js_env (\<lambda>k. Inl TypeError)) [0x22, 0x61, 0x62, 0x63, 0x64, 0x22]
       = Inr (JSString [0x61, 0x62, 0x63, 0x64])
   \<and> (\<exists>chunks. splitIntoChunks (js_env (\<lambda>k. Inl TypeError)) (JSString [0x61, 0x62, 0x63, 0x64]) 3
                  = Some (Inr (chunks, [0x22, 0x61, 0x62, 0x63, 0x64, 0x22]))
         \<and> reassembleChunks (js_env (\<lambda>k. Inl TypeError)) chunks = Inr (JSString [0x61, 0x62, 0x63, 0x64]))"
  using split_reassemble_roundtrip [of 3 "js_env (\<lambda>k. Inl TypeError)" "JSString [0x61, 0x62, 0x63, 0x64]",
      OF _ stringify_js_abcd parse_js_abcd]
  by (simp add: stringify_js_abcd parse_js_abcd)

section \<open>Every string payload is serializable\<close>

text \<open>
  The round trip of the serializer, assumed of the payload in C4 and C6, holds for every
  JavaScript string: \<open>JSON.parse\<close> of the text \<open>JSON.stringify\<close> writes for a string is
  that string, whatever it contains (quotes, control characters, lone surrogates).
\<close>

lemma nibbles: "4096 * (u div 4096) + 256 * (u div 256 mod 16) + 16 * (u div 16 mod 16) + u mod 16 = (u::nat)"
proof -
  define q1 where "q1 = u div 16"
  define q2 where "q2 = q1 div 16"
  define q3 where "q3 = q2 div 16"
  have a: "u = 16 * q1 + u mod 16" unfolding q1_def by (rule mult_div_mod_eq [symmetric])
  have b: "q1 = 16 * q2 + q1 mod 16" unfolding q2_def by (rule mult_div_mod_eq [symmetric])
  have c: "q2 = 16 * q3 + q2 mod 16" unfolding q3_def by (rule mult_div_mod_eq [symmetric])
  have d2: "u div 256 = q2" unfolding q2_def q1_def by (simp only: div_mult2_eq [symmetric]) simp
  have d3: "u div 4096 = q3" unfolding q3_def q2_def q1_def by (simp only: div_mult2_eq [symmetric]) simp
  have "4096 * q3 + 256 * (q2 mod 16) + 16 * (q1 mod 16) + u mod 16
          = 16 * (16 * (16 * q3 + q2 mod 16) + q1 mod 16) + u mod 16"
    by simp
  also have "\<dots> = 16 * (16 * q2 + q1 mod 16) + u mod 16" by (simp only: c [symmetric])
  also have "\<dots> = 16 * q1 + u mod 16" by (simp only: b [symmetric])
  also have "\<dots> = u" by (simp only: a [symmetric])
  finally show ?thesis by (simp only: d2 d3 q1_def [symmetric])
qed

lemma unat_small: "n < 65536 \<Longrightarrow> unat (of_nat n :: code_unit) = n"
  by (simp add: unat_of_nat)

lemma hex_value_hex_digit:
  assumes "n < 16"
  shows "hex_value (hex_digit n) = Some n"
proof (cases "n < 10")
  case True
  then have "unat (of_nat (48 + n) :: code_unit) = 48 + n" by (intro unat_small) simp
  with True show ?thesis
    by (simp only: hex_value_def hex_digit_def word_le_nat_alt if_True) simp
next
  case False
  with assms have "unat (of_nat (87 + n) :: code_unit) = 87 + n" by (intro unat_small) simp
  with False assms show ?thesis
    by (simp only: hex_value_def hex_digit_def word_le_nat_alt if_False) simp
qed


lemma string_body_unicode_escape:
  "string_body (unicode_escape c @ t) = map_option (\<lambda>(s, r). (c # s, r)) (string_body t)"
proof -
  have "unat c < 2 ^ LENGTH(16)" by (rule unsigned_less)
  then have u: "unat c < 65536" by simp
  then have a: "unat c div 4096 < 16" by simp
  have b: "unat c div 256 mod 16 < 16" "unat c div 16 mod 16 < 16" "unat c mod 16 < 16" by simp_all
  have v: "of_nat (4096 * (unat c div 4096) + 256 * (unat c div 256 mod 16)
             + 16 * (unat c div 16 mod 16) + unat c mod 16) = c"
    by (simp only: nibbles) simp
  have "string_body (unicode_escape c @ t)
          = string_body (0x5C # 0x75 # hex_digit (unat c div 4096) # hex_digit (unat c div 256 mod 16)
              # hex_digit (unat c div 16 mod 16) # hex_digit (unat c mod 16) # t)"
    by (simp add: unicode_escape_def)
  also have "\<dots> = map_option (\<lambda>(s, r). (of_nat (4096 * (unat c div 4096) + 256 * (unat c div 256 mod 16)
             + 16 * (unat c div 16 mod 16) + unat c mod 16) # s, r)) (string_body t)"
    by (simp add: hex_value_hex_digit a b del: of_nat_add of_nat_mult)
  finally show ?thesis by (simp only: v)
qed


lemma string_body_quote_unit:
  "string_body (quote_unit c @ t) = map_option (\<lambda>(s, r). (c # s, r)) (string_body t)"
proof -
  consider "c = 0x08" | "c = 0x09" | "c = 0x0A" | "c = 0x0C" | "c = 0x0D" | "c = 0x22" | "c = 0x5C"
    | "c \<notin> {0x08, 0x09, 0x0A, 0x0C, 0x0D, 0x22, 0x5C}"
        "c < 0x20 \<or> is_high_surrogate c \<or> is_low_surrogate c"
    | "c \<notin> {0x08, 0x09, 0x0A, 0x0C, 0x0D, 0x22, 0x5C}"
        "\<not> (c < 0x20 \<or> is_high_surrogate c \<or> is_low_surrogate c)"
    by blast
  then show ?thesis
  proof cases
    case 8
    then have "quote_unit c = unicode_escape c" by (simp add: quote_unit_def)
    then show ?thesis by (simp only: string_body_unicode_escape)
  next
    case 9
    then have "quote_unit c = [c]" by (simp add: quote_unit_def)
    with 9 show ?thesis by simp
  qed (simp_all add: quote_unit_def simple_escape_def)
qed

lemma string_body_plain:
  "c \<noteq> 0x22 \<Longrightarrow> c \<noteq> 0x5C \<Longrightarrow> \<not> c < 0x20
   \<Longrightarrow> string_body (c # t) = map_option (\<lambda>(s, r). (c # s, r)) (string_body t)"
  by simp

lemma surrogate_plain:
  assumes "is_high_surrogate c \<or> is_low_surrogate c"
  shows "c \<noteq> 0x22" and "c \<noteq> 0x5C" and "\<not> c < 0x20"
  using assms
  by (auto simp: is_high_surrogate_def is_low_surrogate_def word_le_nat_alt word_less_nat_alt)

lemma string_body_quote_units:
  "string_body (quote_units s @ 0x22 # rest) = Some (s, rest)"
proof (induction s rule: quote_units.induct)
  case 1
  show ?case by simp
next
  case (2 c)
  show ?case by (simp add: string_body_quote_unit)
next
  case (3 c d cs)
  show ?case
  proof (cases "is_high_surrogate c \<and> is_low_surrogate d")
    case True
    then have q: "quote_units (c # d # cs) = c # d # quote_units cs" by simp
    from True have pc: "c \<noteq> 0x22" "c \<noteq> 0x5C" "\<not> c < 0x20"
      by (simp_all add: surrogate_plain)
    from True have pd: "d \<noteq> 0x22" "d \<noteq> 0x5C" "\<not> d < 0x20"
      by (simp_all add: surrogate_plain)
    have "string_body (quote_units (c # d # cs) @ 0x22 # rest)
            = string_body (c # d # (quote_units cs @ 0x22 # rest))"
      by (simp only: q append_Cons)
    also have "\<dots> = map_option (\<lambda>(s, r). (c # s, r))
                        (map_option (\<lambda>(s, r). (d # s, r)) (string_body (quote_units cs @ 0x22 # rest)))"
      by (simp only: string_body_plain [OF pc] string_body_plain [OF pd])
    also have "\<dots> = Some (c # d # cs, rest)"
      by (simp add: "3.IH"(1) [OF True])
    finally show ?thesis .
  next
    case False
    then have q: "quote_units (c # d # cs) = quote_unit c @ quote_units (d # cs)" by auto
    have "string_body (quote_units (c # d # cs) @ 0x22 # rest)
            = string_body (quote_unit c @ (quote_units (d # cs) @ 0x22 # rest))"
      by (simp only: q append_assoc)
    also have "\<dots> = map_option (\<lambda>(s, r). (c # s, r)) (string_body (quote_units (d # cs) @ 0x22 # rest))"
      by (rule string_body_quote_unit)
    also have "\<dots> = Some (c # d # cs, rest)"
      by (simp add: "3.IH"(2) [OF False])
    finally show ?thesis .
  qed
qed

lemma JSON_parse_QuoteJSONString: "JSON_parse (QuoteJSONString s) = Inr (JSString s)"
  using string_body_quote_units [of s "[]"]
  by (simp add: JSON_parse_def QuoteJSONString_def is_json_space_def)

lemma string_payload_roundtrip:
  assumes "0 < B"
  shows "\<exists>chunks. splitIntoChunks (js_env f) (JSString s) B = Some (Inr (chunks, QuoteJSONString s))
           \<and> reassembleChunks (js_env f) chunks = Inr (JSString s)"
proof -
  have enc: "stringify (js_env f) (JSString s) = Inr (Some (QuoteJSONString s))"
    by (simp add: js_env_def JSON_stringify_def)
  from splitIntoChunks_text [OF assms enc] obtain chunks where
    "splitIntoChunks (js_env f) (JSString s) B = Some (Inr (chunks, QuoteJSONString s))"
    "concat chunks = QuoteJSONString s"
    by blast
  then show ?thesis
    by (auto simp: reassembleChunks_def js_env_def JSON_parse_QuoteJSONString)
qed

section \<open>Reading the cache never rejects\<close>

lemma getCachedValue_throws:
  "readThrows E (cacheKeyOf key r) = Some e \<Longrightarrow> getCachedValue E key r tag w = (Inr None, w)"
  by (simp add: getCachedValue_def unstable_cache_def Let_def)

lemma getCachedValue_hit:
  "readThrows E (cacheKeyOf key r) = None \<Longrightarrow> cacheEntries w (cacheKeyOf key r) = Some v
   \<Longrightarrow> getCachedValue E key r tag w = (Inr (Some v), w)"
  by (simp add: getCachedValue_def unstable_cache_def Let_def)

lemma getCachedValue_absent:
  "cacheEntries w (cacheKeyOf key r) = None \<Longrightarrow> requestStore w (cacheKeyOf key r) = None
   \<Longrightarrow> getCachedValue E key r tag w = (Inr None, w)"
  by (simp add: getCachedValue_def unstable_cache_def readRequestStore_def Let_def split: option.splits)

lemma getCachedValue_no_rejection: "\<exists>res. fst (getCachedValue E key r tag w) = Inr res"
  by (simp add: getCachedValue_def unstable_cache_def readRequestStore_def Let_def
      split: option.splits sum.splits prod.splits)

lemma getCachedValue_fetchCalls: "fetchCalls (snd (getCachedValue E key r tag w)) = fetchCalls w"
  by (simp add: getCachedValue_def unstable_cache_def readRequestStore_def Let_def
      split: option.splits sum.splits prod.splits)

lemma retrieveMetadata_eq: "retrieveMetadata E key r w = getCachedValue E key r (ascii ''metadata'') w"
proof -
  from getCachedValue_no_rejection [of E key r "ascii ''metadata''" w]
  obtain res where "fst (getCachedValue E key r (ascii ''metadata'') w) = Inr res" by blast
  then show ?thesis
    by (cases "getCachedValue E key r (ascii ''metadata'') w") (simp add: retrieveMetadata_def)
qed

lemma retrieveChunk_eq: "retrieveChunk E key r w = getCachedValue E key r (ascii ''chunk'') w"
proof -
  from getCachedValue_no_rejection [of E key r "ascii ''chunk''" w]
  obtain res where "fst (getCachedValue E key r (ascii ''chunk'') w) = Inr res" by blast
  then show ?thesis
    by (cases "getCachedValue E key r (ascii ''chunk'') w") (simp add: retrieveChunk_def)
qed

lemma retrieveFromCache_no_metadata:
  assumes "retrieveMetadata E (metadataKeyOf p) r w = (Inr None, w1)"
  shows "retrieveFromCache E p r w = (Inr None, w1)"
  using assms by (simp add: retrieveFromCache_def)

lemma retrieveFromCache_absent:
  assumes "cacheEntries w (cacheKeyOf (metadataKeyOf p) r) = None"
    and "requestStore w (cacheKeyOf (metadataKeyOf p) r) = None"
  shows "retrieveFromCache E p r w = (Inr None, w)"
  by (rule retrieveFromCache_no_metadata)
    (simp add: retrieveMetadata_eq getCachedValue_absent [OF assms])

lemma retrieveFromCache_empty_world: "retrieveFromCache E p r empty_world = (Inr None, empty_world)"
  by (rule retrieveFromCache_absent) (simp_all add: empty_world_def)

section \<open>\<open>storeInCache\<close> and \<open>get\<close> return\<close>

lemma storeInCache_returns: "storeInCache E p r data w \<noteq> None"
  using splitIntoChunks_SAFE_returns [of E data]
  by (auto simp: storeInCache_def split: option.splits sum.splits prod.splits)

lemma get_returns: "get E p r w \<noteq> None"
proof -
  obtain res w1 where c: "retrieveFromCache E p r w = (res, w1)"
    by (cases "retrieveFromCache E p r w")
  show ?thesis
  proof (cases res)
    case (Inl e)
    with c show ?thesis by (simp add: get_def)
  next
    case (Inr hit)
    show ?thesis
    proof (cases hit)
      case (Some dc)
      with c Inr show ?thesis by (cases dc) (simp add: get_def)
    next
      case None
      show ?thesis
      proof (cases "fetchData E (fetchCalls w1)")
        case (Inl e)
        with c Inr None show ?thesis by (simp add: get_def Let_def)
      next
        case fresh: (Inr v)
        let ?w2 = "w1\<lparr>fetchCalls := Suc (fetchCalls w1)\<rparr>"
        from storeInCache_returns [of E p r v ?w2] obtain sres w3 where
          "storeInCache E p r v ?w2 = Some (sres, w3)"
          by (cases "storeInCache E p r v ?w2") auto
        with c Inr None fresh show ?thesis by (cases sres) (simp_all add: get_def Let_def)
      qed
    qed
  qed
qed

lemma get_miss:
  assumes "retrieveFromCache E p r w = (Inr None, w1)"
  shows "get E p r w =
           (case fetchData E (fetchCalls w1) of
              Inl e \<Rightarrow> Some (Inl e, w1\<lparr>fetchCalls := Suc (fetchCalls w1)\<rparr>)
            | Inr freshData \<Rightarrow>
                (case storeInCache E p r freshData (w1\<lparr>fetchCalls := Suc (fetchCalls w1)\<rparr>) of
                   None \<Rightarrow> None
                 | Some (Inl e, w3) \<Rightarrow> Some (Inl e, w3)
                 | Some (Inr u, w3) \<Rightarrow> Some (Inr freshData, w3)))"
  using assms by (simp add: get_def Let_def)

section \<open>Writing the cache\<close>

lemma storeCachedValue_ok:
  assumes "writeThrows E (cacheKeyOf key r) = None"
  shows "storeCachedValue E key v r tag w =
           (Inr (),
            w\<lparr>requestStore := (requestStore w)(cacheKeyOf key r \<mapsto> v),
              cacheEntries :=
                (if cacheEntries w (cacheKeyOf key r) = None
                 then (cacheEntries w)(cacheKeyOf key r \<mapsto> v) else cacheEntries w)\<rparr>)"
  using assms
  by (simp add: storeCachedValue_def unstable_cache_def readRequestStore_def Let_def
      split: option.splits)

lemma storeCachedValue_throws:
  assumes "writeThrows E (cacheKeyOf key r) = Some e"
  shows "storeCachedValue E key v r tag w =
           (Inl e, w\<lparr>requestStore := (requestStore w)(cacheKeyOf key r \<mapsto> v)\<rparr>)"
  using assms by (simp add: storeCachedValue_def unstable_cache_def Let_def)

lemma storeCachedValue_fetchCalls: "fetchCalls (snd (storeCachedValue E key v r tag w)) = fetchCalls w"
  by (cases "writeThrows E (cacheKeyOf key r)")
    (simp_all add: storeCachedValue_ok storeCachedValue_throws)

lemma run_all_fetchCalls:
  assumes "\<And>k w. fetchCalls (snd (f k w)) = fetchCalls w"
  shows "fetchCalls (snd (run_all f ks w)) = fetchCalls w"
proof (induction ks arbitrary: w)
  case Nil
  show ?case by simp
next
  case (Cons k ks)
  obtain r1 w1 where f: "f k w = (r1, w1)" by (cases "f k w")
  obtain rs w2 where g: "run_all f ks w1 = (rs, w2)" by (cases "run_all f ks w1")
  from assms [of k w] f have "fetchCalls w1 = fetchCalls w" by simp
  moreover from Cons [of w1] g have "fetchCalls w2 = fetchCalls w1" by simp
  ultimately show ?case using f g by simp
qed

lemma storeInCache_fetchCalls:
  assumes "storeInCache E p r data w = Some (res, w')"
  shows "fetchCalls w' = fetchCalls w"
proof (cases "splitIntoChunks E data SAFE_CHUNK_SIZE_BYTES")
  case None
  with assms show ?thesis by (simp add: storeInCache_def)
next
  case (Some sp)
  show ?thesis
  proof (cases sp)
    case (Inl e)
    with Some assms show ?thesis by (auto simp: storeInCache_def)
  next
    case (Inr cj)
    obtain chunks js where cj: "cj = (chunks, js)" by (cases cj)
    let ?f = "\<lambda>(index, chunk). storeChunk E (createChunkKey p index) chunk r"
    obtain r0 w1 where m: "storeMetadata E (metadataKeyOf p) (length chunks) r w = (r0, w1)"
      by (cases "storeMetadata E (metadataKeyOf p) (length chunks) r w")
    obtain rs w2 where c: "run_all ?f (enumerate 0 chunks) w1 = (rs, w2)"
      by (cases "run_all ?f (enumerate 0 chunks) w1")
    from m have "fetchCalls w1 = fetchCalls w"
      using storeCachedValue_fetchCalls
          [of E "metadataKeyOf p" "Metadata (length chunks)" r "ascii ''metadata''" w]
      by (simp add: storeMetadata_def)
    moreover have "fetchCalls (snd (run_all ?f (enumerate 0 chunks) w1)) = fetchCalls w1"
      by (rule run_all_fetchCalls)
        (simp add: storeChunk_def storeCachedValue_fetchCalls split: prod.splits)
    moreover from assms Some Inr cj m c have "w' = w2"
      by (auto simp: storeInCache_def split: sum.splits)
    ultimately show ?thesis using c by simp
  qed
qed

lemma get_miss_fetchCalls:
  assumes "retrieveFromCache E p r w = (Inr None, w1)"
  shows "\<exists>res w'. get E p r w = Some (res, w') \<and> fetchCalls w' = Suc (fetchCalls w1)"
proof (cases "fetchData E (fetchCalls w1)")
  case (Inl e)
  with assms show ?thesis by (simp add: get_miss)
next
  case (Inr v)
  let ?w2 = "w1\<lparr>fetchCalls := Suc (fetchCalls w1)\<rparr>"
  from storeInCache_returns [of E p r v ?w2] obtain res w3 where
    s: "storeInCache E p r v ?w2 = Some (res, w3)" by (cases "storeInCache E p r v ?w2") auto
  from storeInCache_fetchCalls [OF s] have "fetchCalls w3 = Suc (fetchCalls w1)" by simp
  with assms Inr s show ?thesis by (cases res) (simp_all add: get_miss)
qed

section \<open>Failures of the producer and of the serializer\<close>

text \<open>
  C7: when the cache path is a miss and the producer fails, \<open>get\<close> rejects with the
  producer's error, unchanged, after that one call of the producer; nothing is stored
  and no value is returned in its place.
\<close>

theorem producer_failure_propagates:
  assumes "retrieveFromCache E p r w = (Inr None, w1)"
    and "fetchData E (fetchCalls w1) = Inl e"
  shows "get E p r w = Some (Inl e, w1\<lparr>fetchCalls := Suc (fetchCalls w1)\<rparr>)"
  using assms by (simp add: get_miss)

theorem producer_failure_propagates_witness:
  "retrieveFromCache (js_env (\<lambda>k. Inl (Failure (ascii ''boom'')))) (ascii ''countries'') 3600 empty_world
     = (Inr None, empty_world)
   \<and> fetchData (js_env (\<lambda>k. Inl (Failure (ascii ''boom'')))) (fetchCalls empty_world)
     = Inl (Failure (ascii ''boom''))
   \<and> get (js_env (\<lambda>k. Inl (Failure (ascii ''boom'')))) (ascii ''countries'') 3600 empty_world
     = Some (Inl (Failure (ascii ''boom'')), empty_world\<lparr>fetchCalls := Suc (fetchCalls empty_world)\<rparr>)"
  using producer_failure_propagates [of "js_env (\<lambda>k. Inl (Failure (ascii ''boom'')))"
      "ascii ''countries''" 3600 empty_world empty_world "Failure (ascii ''boom'')",
      OF retrieveFromCache_empty_world]
  by (simp add: retrieveFromCache_empty_world js_env_def)

text \<open>
  C10: when the cache path is a miss and the producer returns a value for which
  \<open>JSON.stringify\<close> returns \<open>undefined\<close>, \<open>get\<close> rejects with the \<open>TypeError\<close> of
  \<open>splitIntoChunks\<close> instead of returning the fresh value, and nothing is stored.
\<close>

theorem unserializable_value_rejects:
  assumes "retrieveFromCache E p r w = (Inr None, w1)"
    and "fetchData E (fetchCalls w1) = Inr v"
    and "stringify E v = Inr None"
  shows "get E p r w = Some (Inl TypeError, w1\<lparr>fetchCalls := Suc (fetchCalls w1)\<rparr>)"
  using assms by (simp add: get_miss storeInCache_def splitIntoChunks_def)

theorem unserializable_value_rejects_witness:
  "retrieveFromCache (js_env (\<lambda>k. Inr JSUndefined)) (ascii ''countries'') 3600 empty_world
     = (Inr None, empty_world)
   \<and> fetchData (js_env (\<lambda>k. Inr JSUndefined)) (fetchCalls empty_world) = Inr JSUndefined
   \<and> stringify (js_env (\<lambda>k. Inr JSUndefined)) JSUndefined = Inr None
   \<and> get (js_env (\<lambda>k. Inr JSUndefined)) (ascii ''countries'') 3600 empty_world
     = Some (Inl TypeError, empty_world\<lparr>fetchCalls := Suc (fetchCalls empty_world)\<rparr>)"
  using unserializable_value_rejects [of "js_env (\<lambda>k. Inr JSUndefined)"
      "ascii ''countries''" 3600 empty_world empty_world JSUndefined,
      OF retrieveFromCache_empty_world]
  by (simp add: retrieveFromCache_empty_world js_env_def JSON_stringify_def)

section \<open>Metadata retrieval\<close>

text \<open>
  C8: \<open>retrieveMetadata\<close> never rejects. When the external cache fails on the metadata
  key, whatever the error, the result is \<open>null\<close> and the world is untouched;
  \<open>retrieveFromCache\<close> then reports a miss and \<open>get\<close> takes the miss path: it returns
  after exactly one call of the producer.
\<close>

theorem metadata_failure_is_miss:
  assumes "readThrows E (cacheKeyOf (metadataKeyOf p) r) = Some e"
  shows "fst (retrieveMetadata E key r w0) \<noteq> Inl e'
       \<and> retrieveMetadata E (metadataKeyOf p) r w = (Inr None, w)
       \<and> retrieveFromCache E p r w = (Inr None, w)
       \<and> (\<exists>res w'. get E p r w = Some (res, w') \<and> fetchCalls w' = Suc (fetchCalls w))"
proof -
  have a: "fst (retrieveMetadata E key r w0) \<noteq> Inl e'"
    using getCachedValue_no_rejection [of E key r "ascii ''metadata''" w0]
    by (auto simp: retrieveMetadata_eq)
  have b: "retrieveMetadata E (metadataKeyOf p) r w = (Inr None, w)"
    by (simp add: retrieveMetadata_eq getCachedValue_throws [OF assms])
  have c: "retrieveFromCache E p r w = (Inr None, w)"
    by (rule retrieveFromCache_no_metadata [OF b])
  have d: "\<exists>res w'. get E p r w = Some (res, w') \<and> fetchCalls w' = Suc (fetchCalls w)"
    using get_miss_fetchCalls [OF c] by simp
  from a b c d show ?thesis by blast
qed

theorem metadata_failure_is_miss_witness:
  "readThrows ((js_env (\<lambda>k. Inr (JSString [0x61])))\<lparr>readThrows := (\<lambda>key. Some (Failure (ascii ''down'')))\<rparr>)
       (cacheKeyOf (metadataKeyOf (ascii ''countries'')) 3600) = Some (Failure (ascii ''down''))
   \<and> retrieveMetadata ((js_env (\<lambda>k. Inr (JSString [0x61])))\<lparr>readThrows := (\<lambda>key. Some (Failure (ascii ''down'')))\<rparr>)
       (metadataKeyOf (ascii ''countries'')) 3600 empty_world = (Inr None, empty_world)
   \<and> retrieveFromCache ((js_env (\<lambda>k. Inr (JSString [0x61])))\<lparr>readThrows := (\<lambda>key. Some (Failure (ascii ''down'')))\<rparr>)
       (ascii ''countries'') 3600 empty_world = (Inr None, empty_world)
   \<and> (\<exists>res w'. get ((js_env (\<lambda>k. Inr (JSString [0x61])))\<lparr>readThrows := (\<lambda>key. Some (Failure (ascii ''down'')))\<rparr>)
                    (ascii ''countries'') 3600 empty_world = Some (res, w')
         \<and> fetchCalls w' = Suc (fetchCalls empty_world))"
  using metadata_failure_is_miss
    [of "(js_env (\<lambda>k. Inr (JSString [0x61])))\<lparr>readThrows := (\<lambda>key. Some (Failure (ascii ''down'')))\<rparr>"
        "ascii ''countries''" 3600 "Failure (ascii ''down'')" "[]" empty_world TypeError empty_world]
  by simp

section \<open>The keys are distinct\<close>

lemma unat_digit_unit:
  assumes "d < 10"
  shows "unat (digit_unit d) = 48 + d"
proof -
  have "unat (of_nat (48 + d) :: code_unit) = (48 + d) mod 2 ^ LENGTH(16)"
    by (simp only: unat_of_nat)
  also from assms have "\<dots> = 48 + d" by simp
  finally show ?thesis by (simp only: digit_unit_def)
qed

lemma digit_unit_inj:
  assumes "a < 10" and "b < 10" and "digit_unit a = digit_unit b"
  shows "a = b"
proof -
  from assms(3) have "unat (digit_unit a) = unat (digit_unit b)" by (rule arg_cong)
  then have "48 + a = 48 + b"
    by (simp only: unat_digit_unit [OF assms(1)] unat_digit_unit [OF assms(2)])
  then show ?thesis by simp
qed

lemma decimal_nonempty: "decimal n \<noteq> []"
  by (subst decimal.simps) simp

lemma decimal_inj: "decimal n = decimal m \<Longrightarrow> n = m"
proof (induction n arbitrary: m rule: decimal.induct)
  case (1 n)
  show ?case
  proof (cases "n < 10")
    case small_n: True
    show ?thesis
    proof (cases "m < 10")
      case True
      with small_n "1.prems" show ?thesis
        by (simp add: decimal.simps [of n] decimal.simps [of m] digit_unit_inj)
    next
      case False
      with small_n "1.prems" decimal_nonempty [of "m div 10"] show ?thesis
        by (simp add: decimal.simps [of n] decimal.simps [of m])
    qed
  next
    case big_n: False
    show ?thesis
    proof (cases "m < 10")
      case True
      with big_n "1.prems" decimal_nonempty [of "n div 10"] show ?thesis
        by (simp add: decimal.simps [of n] decimal.simps [of m])
    next
      case False
      with big_n "1.prems" have
        eq: "decimal (n div 10) = decimal (m div 10)"
            "digit_unit (n mod 10) = digit_unit (m mod 10)"
        by (simp_all add: decimal.simps [of n] decimal.simps [of m])
      from "1.IH" [OF big_n eq(1)] have "n div 10 = m div 10" .
      moreover from eq(2) have "n mod 10 = m mod 10"
        by (rule digit_unit_inj [rotated 2]) simp_all
      ultimately show ?thesis by (metis div_mult_mod_eq)
    qed
  qed
qed

lemma decimal_digits: "c \<in> set (decimal n) \<Longrightarrow> 48 \<le> unat c \<and> unat c \<le> 57"
proof (induction n rule: decimal.induct)
  case (1 n)
  show ?case
  proof (cases "n < 10")
    case True
    with "1.prems" show ?thesis
      by (simp add: decimal.simps [of n] unat_digit_unit)
  next
    case False
    with "1.prems" have "c \<in> set (decimal (n div 10)) \<or> c = digit_unit (n mod 10)"
      by (auto simp: decimal.simps [of n])
    then show ?thesis
    proof
      assume "c \<in> set (decimal (n div 10))"
      from "1.IH" [OF False this] show ?thesis .
    next
      assume "c = digit_unit (n mod 10)"
      then show ?thesis by (simp add: unat_digit_unit)
    qed
  qed
qed

lemma count_m_decimal: "count_list (decimal n) (0x6D :: code_unit) = 0"
proof -
  have "(0x6D :: code_unit) \<notin> set (decimal n)"
    using decimal_digits [of "0x6D" n] by auto
  then show ?thesis by (simp add: count_list_0_iff)
qed

lemma chunk_keys_distinct:
  "cacheKeyOf (createChunkKey p i) r = cacheKeyOf (createChunkKey p j) r \<Longrightarrow> i = j"
  by (simp add: cacheKeyOf_def createChunkKey_def decimal_inj)

lemma metadata_key_not_chunk_key:
  "cacheKeyOf (metadataKeyOf p) r \<noteq> cacheKeyOf (createChunkKey p i) r"
proof
  assume "cacheKeyOf (metadataKeyOf p) r = cacheKeyOf (createChunkKey p i) r"
  then have "count_list (cacheKeyOf (metadataKeyOf p) r) 0x6D
               = count_list (cacheKeyOf (createChunkKey p i) r) 0x6D"
    by simp
  then show False
    by (simp add: cacheKeyOf_def metadataKeyOf_def createChunkKey_def ascii_def count_m_decimal)
qed

section \<open>What a store-back leaves in the cache, and what a read finds there\<close>

lemma promise_all_Inr: "promise_all (map Inr xs) = Inr xs"
  by (induction xs) simp_all

lemma promise_all_replicate_unit: "promise_all (replicate n (Inr ())) = Inr (replicate n ())"
  by (induction n) simp_all

lemma storeChunk_fresh_key:
  assumes "writeThrows E (cacheKeyOf key r) = None" and "cacheEntries w (cacheKeyOf key r) = None"
  shows "storeChunk E key c r w =
           (Inr (),
            w\<lparr>requestStore := (requestStore w)(cacheKeyOf key r \<mapsto> ChunkData c),
              cacheEntries := (cacheEntries w)(cacheKeyOf key r \<mapsto> ChunkData c)\<rparr>)"
  using assms by (simp add: storeChunk_def storeCachedValue_ok)

lemma run_all_storeChunk:
  assumes nothrow: "\<And>i. writeThrows E (cacheKeyOf (createChunkKey p i) r) = None"
    and absent: "\<And>i. i < length chunks \<Longrightarrow> cacheEntries w (cacheKeyOf (createChunkKey p (k + i)) r) = None"
  shows "\<exists>w'. run_all (\<lambda>(index, chunk). storeChunk E (createChunkKey p index) chunk r)
                 (enumerate k chunks) w = (replicate (length chunks) (Inr ()), w')
           \<and> fetchCalls w' = fetchCalls w
           \<and> (\<forall>i<length chunks.
                 cacheEntries w' (cacheKeyOf (createChunkKey p (k + i)) r) = Some (ChunkData (chunks ! i)))
           \<and> (\<forall>x. (\<forall>i<length chunks. x \<noteq> cacheKeyOf (createChunkKey p (k + i)) r)
                 \<longrightarrow> cacheEntries w' x = cacheEntries w x)"
  using absent
proof (induction chunks arbitrary: k w)
  case Nil
  show ?case by simp
next
  case (Cons c cs)
  let ?ck = "\<lambda>i. cacheKeyOf (createChunkKey p i) r"
  let ?f = "\<lambda>(index, chunk). storeChunk E (createChunkKey p index) chunk r"
  let ?w1 = "w\<lparr>requestStore := (requestStore w)(?ck k \<mapsto> ChunkData c),
                cacheEntries := (cacheEntries w)(?ck k \<mapsto> ChunkData c)\<rparr>"
  from Cons.prems [of 0] have a0: "cacheEntries w (?ck k) = None" by simp
  have step: "storeChunk E (createChunkKey p k) c r w = (Inr (), ?w1)"
    by (rule storeChunk_fresh_key [OF nothrow a0])
  have absent1: "cacheEntries ?w1 (?ck (Suc k + i)) = None" if "i < length cs" for i
  proof -
    from that Cons.prems [of "Suc i"] have "cacheEntries w (?ck (Suc k + i)) = None" by simp
    moreover have "?ck (Suc k + i) \<noteq> ?ck k"
      using chunk_keys_distinct [of p "Suc k + i" r k] by auto
    ultimately show ?thesis by simp
  qed
  from Cons.IH [of ?w1 "Suc k", OF absent1] obtain w' where
    run: "run_all ?f (enumerate (Suc k) cs) ?w1 = (replicate (length cs) (Inr ()), w')"
    and fc: "fetchCalls w' = fetchCalls ?w1"
    and stored: "\<And>i. i < length cs \<Longrightarrow> cacheEntries w' (?ck (Suc k + i)) = Some (ChunkData (cs ! i))"
    and others: "\<And>x. (\<forall>i<length cs. x \<noteq> ?ck (Suc k + i)) \<Longrightarrow> cacheEntries w' x = cacheEntries ?w1 x"
    by blast
  have r1: "run_all ?f (enumerate k (c # cs)) w = (replicate (length (c # cs)) (Inr ()), w')"
    using step run by simp
  have r2: "fetchCalls w' = fetchCalls w" using fc by simp
  have r3: "cacheEntries w' (?ck (k + i)) = Some (ChunkData ((c # cs) ! i))"
    if "i < length (c # cs)" for i
  proof (cases i)
    case 0
    have "\<forall>j<length cs. ?ck k \<noteq> ?ck (Suc k + j)"
      using chunk_keys_distinct [of p k r] by fastforce
    from others [OF this] 0 show ?thesis by simp
  next
    case (Suc j)
    with that stored [of j] show ?thesis by simp
  qed
  have r4: "cacheEntries w' x = cacheEntries w x"
    if "\<forall>i<length (c # cs). x \<noteq> ?ck (k + i)" for x
  proof -
    from that have "x \<noteq> ?ck k" by force
    moreover from that have "\<forall>i<length cs. x \<noteq> ?ck (Suc k + i)" by force
    ultimately show ?thesis using others [of x] by simp
  qed
  from r1 r2 r3 r4 show ?case by blast
qed

lemma run_all_retrieveChunk_hits:
  assumes "\<And>key. key \<in> set keys \<Longrightarrow> readThrows E (cacheKeyOf key r) = None"
    and "\<And>key. key \<in> set keys \<Longrightarrow> cacheEntries w (cacheKeyOf key r) \<noteq> None"
  shows "run_all (\<lambda>chunkKey. retrieveChunk E chunkKey r) keys w
           = (map (\<lambda>key. Inr (cacheEntries w (cacheKeyOf key r))) keys, w)"
  using assms
proof (induction keys)
  case Nil
  show ?case by simp
next
  case (Cons key keys)
  from Cons.prems(2) [of key] obtain v where v: "cacheEntries w (cacheKeyOf key r) = Some v" by auto
  have "retrieveChunk E key r w = (Inr (Some v), w)"
    using Cons.prems(1) [of key] v by (simp add: retrieveChunk_eq getCachedValue_hit)
  moreover have "run_all (\<lambda>chunkKey. retrieveChunk E chunkKey r) keys w
                   = (map (\<lambda>key. Inr (cacheEntries w (cacheKeyOf key r))) keys, w)"
    using Cons.prems by (intro Cons.IH) simp_all
  ultimately show ?case using v by simp
qed

lemma retrieveFromCache_populated:
  assumes readm: "readThrows E (cacheKeyOf (metadataKeyOf p) r) = None"
    and readc: "\<And>i. i < length cs \<Longrightarrow> readThrows E (cacheKeyOf (createChunkKey p i) r) = None"
    and meta: "cacheEntries w (cacheKeyOf (metadataKeyOf p) r) = Some (Metadata (length cs))"
    and chunks: "\<And>i. i < length cs \<Longrightarrow>
                   cacheEntries w (cacheKeyOf (createChunkKey p i) r) = Some (ChunkData (cs ! i))"
  shows "retrieveFromCache E p r w =
           (case parse E (concat cs) of
              Inl e \<Rightarrow> (Inr None, w)
            | Inr data \<Rightarrow> (Inr (Some (data, Some (length cs))), w))"
proof -
  let ?keys = "map (createChunkKey p) [0..<length cs]"
  have m: "retrieveMetadata E (metadataKeyOf p) r w = (Inr (Some (Metadata (length cs))), w)"
    using readm meta by (simp add: retrieveMetadata_eq getCachedValue_hit)
  have "run_all (\<lambda>chunkKey. retrieveChunk E chunkKey r) ?keys w
          = (map (\<lambda>key. Inr (cacheEntries w (cacheKeyOf key r))) ?keys, w)"
    by (rule run_all_retrieveChunk_hits) (auto simp: readc chunks)
  also have "map (\<lambda>key. Inr (cacheEntries w (cacheKeyOf key r))) ?keys
               = map Inr (map (\<lambda>i. Some (ChunkData (cs ! i))) [0..<length cs])"
    by (simp add: chunks)
  finally have run: "run_all (\<lambda>chunkKey. retrieveChunk E chunkKey r) ?keys w
          = (map Inr (map (\<lambda>i. Some (ChunkData (cs ! i))) [0..<length cs]), w)" .
  have valid: "map chunkText (map the (map (\<lambda>i. Some (ChunkData (cs ! i))) [0..<length cs])) = cs"
  proof -
    have "map chunkText (map the (map (\<lambda>i. Some (ChunkData (cs ! i))) [0..<length cs]))
            = map (\<lambda>i. cs ! i) [0..<length cs]"
      by (simp add: comp_def)
    then show ?thesis by (simp only: map_nth)
  qed
  have present: "filter (\<lambda>chunk. chunk \<noteq> None) (map (\<lambda>i. Some (ChunkData (cs ! i))) [0..<length cs])
                   = map (\<lambda>i. Some (ChunkData (cs ! i))) [0..<length cs]"
    by (simp add: filter_map comp_def)
  have "retrieveFromCache E p r w =
          (case reassembleChunks E cs of
             Inl e \<Rightarrow> (Inr None, w)
           | Inr data \<Rightarrow> (Inr (Some (data, Some (length cs))), w))"
    unfolding retrieveFromCache_def
    by (simp only: m run promise_all_Inr present valid Let_def prod.case sum.case option.case
        falsy.simps chunkCountOf.simps if_False)
  then show ?thesis by (simp add: reassembleChunks_def)
qed

lemma storeInCache_populates:
  assumes enc: "stringify E v = Inr (Some jsonString)"
    and writem: "writeThrows E (cacheKeyOf (metadataKeyOf p) r) = None"
    and writec: "\<And>i. writeThrows E (cacheKeyOf (createChunkKey p i) r) = None"
    and absentm: "cacheEntries w (cacheKeyOf (metadataKeyOf p) r) = None"
    and absentc: "\<And>i. cacheEntries w (cacheKeyOf (createChunkKey p i) r) = None"
  shows "\<exists>cs w'. storeInCache E p r v w = Some (Inr (), w')
           \<and> chunk_loop jsonString SAFE_CHUNK_SIZE_BYTES 0 [] = Some cs
           \<and> concat cs = jsonString
           \<and> fetchCalls w' = fetchCalls w
           \<and> cacheEntries w' (cacheKeyOf (metadataKeyOf p) r) = Some (Metadata (length cs))
           \<and> (\<forall>i<length cs.
                 cacheEntries w' (cacheKeyOf (createChunkKey p i) r) = Some (ChunkData (cs ! i)))"
proof -
  let ?mk = "cacheKeyOf (metadataKeyOf p) r"
  have "0 < SAFE_CHUNK_SIZE_BYTES" by (simp add: SAFE_CHUNK_SIZE_BYTES_def)
  from chunk_loop_chunks [OF this, of jsonString] obtain cs where
    loop: "chunk_loop jsonString SAFE_CHUNK_SIZE_BYTES 0 [] = Some cs" and cat: "concat cs = jsonString"
    by blast
  have split: "splitIntoChunks E v SAFE_CHUNK_SIZE_BYTES = Some (Inr (cs, jsonString))"
    using enc loop by (simp add: splitIntoChunks_def)
  let ?w1 = "w\<lparr>requestStore := (requestStore w)(?mk \<mapsto> Metadata (length cs)),
                cacheEntries := (cacheEntries w)(?mk \<mapsto> Metadata (length cs))\<rparr>"
  have m: "storeMetadata E (metadataKeyOf p) (length cs) r w = (Inr (), ?w1)"
    using writem absentm by (simp add: storeMetadata_def storeCachedValue_ok)
  have absent1: "cacheEntries ?w1 (cacheKeyOf (createChunkKey p (0 + i)) r) = None" for i
    using absentc [of i] metadata_key_not_chunk_key [of p r i] by auto
  from run_all_storeChunk [of E p r cs ?w1 0, OF writec absent1] obtain w' where
    run: "run_all (\<lambda>(index, chunk). storeChunk E (createChunkKey p index) chunk r)
            (enumerate 0 cs) ?w1 = (replicate (length cs) (Inr ()), w')"
    and fc: "fetchCalls w' = fetchCalls ?w1"
    and stored: "\<And>i. i < length cs \<Longrightarrow>
                   cacheEntries w' (cacheKeyOf (createChunkKey p (0 + i)) r) = Some (ChunkData (cs ! i))"
    and others: "\<And>x. (\<forall>i<length cs. x \<noteq> cacheKeyOf (createChunkKey p (0 + i)) r)
                   \<Longrightarrow> cacheEntries w' x = cacheEntries ?w1 x"
    by blast
  have "storeInCache E p r v w = Some (Inr (), w')"
    by (simp add: storeInCache_def split m run promise_all_replicate_unit)
  moreover have "fetchCalls w' = fetchCalls w" using fc by simp
  moreover have "cacheEntries w' ?mk = Some (Metadata (length cs))"
  proof -
    have "\<forall>i<length cs. ?mk \<noteq> cacheKeyOf (createChunkKey p (0 + i)) r"
      using metadata_key_not_chunk_key [of p r] by simp
    from others [OF this] show ?thesis by simp
  qed
  moreover have "\<forall>i<length cs.
      cacheEntries w' (cacheKeyOf (createChunkKey p i) r) = Some (ChunkData (cs ! i))"
    using stored by simp
  ultimately show ?thesis using loop cat by blast
qed

section \<open>Miss, then hit\<close>

lemma get_hit:
  assumes "retrieveFromCache E p r w = (Inr (Some (data, n)), w1)"
  shows "get E p r w = Some (Inr data, w1)"
  using assms by (simp add: get_def)

text \<open>
  C6: from an empty store, with a producer that succeeds, a payload that the serializer
  round-trips and an external cache that does not fail, the first \<open>get\<close> calls the
  producer exactly once and returns its value; a second \<open>get\<close> on the world the first one
  left returns the same value and changes nothing, so the producer is not called again.
  The same holds in a new invocation, where \<open>requestStore\<close> is empty again.
\<close>

theorem miss_then_hit:
  assumes "requestStore w = Map.empty" and "cacheEntries w = Map.empty"
    and "fetchData E (fetchCalls w) = Inr v"
    and "stringify E v = Inr (Some jsonString)" and "parse E jsonString = Inr v"
    and "\<forall>key. writeThrows E key = None" and "\<forall>key. readThrows E key = None"
  shows "\<exists>w1. get E p r w = Some (Inr v, w1)
           \<and> fetchCalls w1 = Suc (fetchCalls w)
           \<and> get E p r w1 = Some (Inr v, w1)
           \<and> get E p r (w1\<lparr>requestStore := Map.empty\<rparr>) = Some (Inr v, w1\<lparr>requestStore := Map.empty\<rparr>)"
proof -
  let ?w2 = "w\<lparr>fetchCalls := Suc (fetchCalls w)\<rparr>"
  have miss: "retrieveFromCache E p r w = (Inr None, w)"
    by (rule retrieveFromCache_absent) (simp_all add: assms(1,2))
  from storeInCache_populates [of E v jsonString p r ?w2] assms(2,4,6)
  obtain cs w1 where
    store: "storeInCache E p r v ?w2 = Some (Inr (), w1)"
    and cat: "concat cs = jsonString"
    and fc: "fetchCalls w1 = fetchCalls ?w2"
    and meta: "cacheEntries w1 (cacheKeyOf (metadataKeyOf p) r) = Some (Metadata (length cs))"
    and chunks: "\<And>i. i < length cs \<Longrightarrow>
                   cacheEntries w1 (cacheKeyOf (createChunkKey p i) r) = Some (ChunkData (cs ! i))"
    by auto
  have first: "get E p r w = Some (Inr v, w1)"
    using assms(3) store by (simp add: get_miss [OF miss])
  have hit: "retrieveFromCache E p r w' = (Inr (Some (v, Some (length cs))), w')"
    if "cacheEntries w' = cacheEntries w1" for w'
    using retrieveFromCache_populated [of E p r cs w'] assms(5,7) meta chunks cat that by simp
  have second: "get E p r w1 = Some (Inr v, w1)"
    by (rule get_hit) (rule hit, simp)
  have third: "get E p r (w1\<lparr>requestStore := Map.empty\<rparr>) = Some (Inr v, w1\<lparr>requestStore := Map.empty\<rparr>)"
    by (rule get_hit) (rule hit, simp)
  from first fc second third show ?thesis by simp
qed

theorem miss_then_hit_witness:
  "requestStore empty_world = Map.empty \<and> cacheEntries empty_world = Map.empty
   \<and> fetchData (js_env (\<lambda>k. Inr (JSString [0x61, 0x62, 0x63, 0x64]))) (fetchCalls empty_world)
       = Inr (JSString [0x61, 0x62, 0x63, 0x64])
   \<and> stringify (js_env (\<lambda>k. Inr (JSString [0x61, 0x62, 0x63, 0x64]))) (JSString [0x61, 0x62, 0x63, 0x64])
       = Inr (Some [0x22, 0x61, 0x62, 0x63, 0x64, 0x22])
   \<and> parse (js_env (\<lambda>k. Inr (JSString [0x61, 0x62, 0x63, 0x64]))) [0x22, 0x61, 0x62, 0x63, 0x64, 0x22]
       = Inr (JSString [0x61, 0x62, 0x63, 0x64])
   \<and> (\<forall>key. writeThrows (js_env (\<lambda>k. Inr (JSString [0x61, 0x62, 0x63, 0x64]))) key = None)
   \<and> (\<forall>key. readThrows (js_env (\<lambda>k. Inr (JSString [0x61, 0x62, 0x63, 0x64]))) key = None)
   \<and> (\<exists>w1. get (js_env (\<lambda>k. Inr (JSString [0x61, 0x62, 0x63, 0x64]))) (ascii ''countries'') 3600 empty_world
               = Some (Inr (JSString [0x61, 0x62, 0x63, 0x64]), w1)
          \<and> fetchCalls w1 = Suc (fetchCalls empty_world)
          \<and> get (js_env (\<lambda>k. Inr (JSString [0x61, 0x62, 0x63, 0x64]))) (ascii ''countries'') 3600 w1
               = Some (Inr (JSString [0x61, 0x62, 0x63, 0x64]), w1)
          \<and> get (js_env (\<lambda>k. Inr (JSString [0x61, 0x62, 0x63, 0x64]))) (ascii ''countries'') 3600
                 (w1\<lparr>requestStore := Map.empty\<rparr>)
               = Some (Inr (JSString [0x61, 0x62, 0x63, 0x64]), w1\<lparr>requestStore := Map.empty\<rparr>))"
proof -
  let ?E = "js_env (\<lambda>k. Inr (JSString [0x61, 0x62, 0x63, 0x64]))"
  have h1: "requestStore empty_world = Map.empty" and h2: "cacheEntries empty_world = Map.empty"
    by (simp_all add: empty_world_def)
  have h3: "fetchData ?E (fetchCalls empty_world) = Inr (JSString [0x61, 0x62, 0x63, 0x64])"
    by (simp add: js_env_def)
  have h6: "\<forall>key. writeThrows ?E key = None" and h7: "\<forall>key. readThrows ?E key = None"
    by (simp_all add: js_env_def)
  from miss_then_hit [OF h1 h2 h3 stringify_js_abcd parse_js_abcd h6 h7, of "ascii ''countries''" 3600]
  show ?thesis using h1 h2 h3 h6 h7 stringify_js_abcd [of "\<lambda>k. Inr (JSString [0x61, 0x62, 0x63, 0x64])"]
      parse_js_abcd [of "\<lambda>k. Inr (JSString [0x61, 0x62, 0x63, 0x64])"]
    by blast
qed

section \<open>The outcome of the store-back\<close>

lemma storeCachedValue_result:
  "fst (storeCachedValue E key v r tag w)
     = (case writeThrows E (cacheKeyOf key r) of None \<Rightarrow> Inr () | Some e \<Rightarrow> Inl e)"
  by (cases "writeThrows E (cacheKeyOf key r)")
    (simp_all add: storeCachedValue_ok storeCachedValue_throws)

lemma storeCachedValue_other_key:
  "x \<noteq> cacheKeyOf key r \<Longrightarrow> cacheEntries (snd (storeCachedValue E key v r tag w)) x = cacheEntries w x"
  by (cases "writeThrows E (cacheKeyOf key r)")
    (simp_all add: storeCachedValue_ok storeCachedValue_throws)

lemma run_all_results:
  assumes "\<And>k w. fst (f k w) = g k"
  shows "fst (run_all f ks w) = map g ks"
proof (induction ks arbitrary: w)
  case Nil
  show ?case by simp
next
  case (Cons k ks)
  obtain r1 w1 where f: "f k w = (r1, w1)" by (cases "f k w")
  obtain rs w2 where g: "run_all f ks w1 = (rs, w2)" by (cases "run_all f ks w1")
  from assms [of k w] f have "r1 = g k" by simp
  moreover from Cons [of w1] g have "rs = map g ks" by simp
  ultimately show ?case using f g by simp
qed

lemma run_all_other_key:
  assumes "\<And>k w. k \<in> set ks \<Longrightarrow> cacheEntries (snd (f k w)) x = cacheEntries w x"
  shows "cacheEntries (snd (run_all f ks w)) x = cacheEntries w x"
  using assms
proof (induction ks arbitrary: w)
  case Nil
  show ?case by simp
next
  case (Cons k ks)
  obtain r1 w1 where f: "f k w = (r1, w1)" by (cases "f k w")
  obtain rs w2 where g: "run_all f ks w1 = (rs, w2)" by (cases "run_all f ks w1")
  from Cons.prems [of k w] f have "cacheEntries w1 x = cacheEntries w x" by simp
  moreover have "cacheEntries (snd (run_all f ks w1)) x = cacheEntries w1 x"
    by (rule Cons.IH) (simp add: Cons.prems)
  ultimately show ?case using f g by simp
qed

lemma promise_all_Inl: "promise_all xs = Inl e \<Longrightarrow> Inl e \<in> set xs"
proof (induction xs)
  case Nil
  then show ?case by simp
next
  case (Cons x xs)
  then show ?case by (cases x) (auto split: sum.splits)
qed

lemma promise_all_Inr_iff: "(\<exists>ys. promise_all xs = Inr ys) \<longleftrightarrow> (\<forall>e. Inl e \<notin> set xs)"
proof (induction xs)
  case Nil
  show ?case by simp
next
  case (Cons x xs)
  then show ?case by (cases x) (auto split: sum.splits)
qed

text \<open>The writes of \<open>storeInCache\<close>, one by one: the outcome depends on \<open>writeThrows\<close> only.\<close>

lemma storeInCache_outcome:
  assumes enc: "stringify E v = Inr (Some jsonString)"
    and loop: "chunk_loop jsonString SAFE_CHUNK_SIZE_BYTES 0 [] = Some cs"
  shows "\<exists>res w'. storeInCache E p r v w = Some (res, w')
           \<and> (res = Inr () \<longleftrightarrow>
                writeThrows E (cacheKeyOf (metadataKeyOf p) r) = None
                \<and> (\<forall>i<length cs. writeThrows E (cacheKeyOf (createChunkKey p i) r) = None))
           \<and> (\<forall>e. res = Inl e \<longrightarrow>
                writeThrows E (cacheKeyOf (metadataKeyOf p) r) = Some e
                \<or> (\<exists>i<length cs. writeThrows E (cacheKeyOf (createChunkKey p i) r) = Some e))"
proof -
  let ?f = "\<lambda>(index, chunk). storeChunk E (createChunkKey p index) chunk r"
  let ?out = "\<lambda>key. case writeThrows E (cacheKeyOf key r) of None \<Rightarrow> Inr () | Some e \<Rightarrow> Inl e"
  let ?g = "\<lambda>(index, chunk). ?out (createChunkKey p index)"
  have split: "splitIntoChunks E v SAFE_CHUNK_SIZE_BYTES = Some (Inr (cs, jsonString))"
    using enc loop by (simp add: splitIntoChunks_def)
  obtain r0 w1 where m: "storeMetadata E (metadataKeyOf p) (length cs) r w = (r0, w1)"
    by (cases "storeMetadata E (metadataKeyOf p) (length cs) r w")
  obtain rs w2 where c: "run_all ?f (enumerate 0 cs) w1 = (rs, w2)"
    by (cases "run_all ?f (enumerate 0 cs) w1")
  have r0: "r0 = ?out (metadataKeyOf p)"
    using m storeCachedValue_result [of E "metadataKeyOf p" "Metadata (length cs)" r "ascii ''metadata''" w]
    by (simp add: storeMetadata_def)
  have "fst (run_all ?f (enumerate 0 cs) w1) = map ?g (enumerate 0 cs)"
    by (rule run_all_results) (simp add: storeChunk_def storeCachedValue_result split: prod.splits)
  with c have rs: "rs = map ?g (enumerate 0 cs)" by simp
  have inl_rs: "Inl e \<in> set rs \<longleftrightarrow>
      (\<exists>i<length cs. writeThrows E (cacheKeyOf (createChunkKey p i) r) = Some e)" for e
  proof
    assume "Inl e \<in> set rs"
    with rs obtain i ch where ic: "(i, ch) \<in> set (enumerate 0 cs)" "?out (createChunkKey p i) = Inl e"
      by auto
    from ic(1) have "i < length cs" by (simp add: in_set_enumerate_eq)
    moreover from ic(2) have "writeThrows E (cacheKeyOf (createChunkKey p i) r) = Some e"
      by (simp split: option.splits)
    ultimately show "\<exists>i<length cs. writeThrows E (cacheKeyOf (createChunkKey p i) r) = Some e"
      by blast
  next
    assume "\<exists>i<length cs. writeThrows E (cacheKeyOf (createChunkKey p i) r) = Some e"
    then obtain i where i: "i < length cs" "writeThrows E (cacheKeyOf (createChunkKey p i) r) = Some e"
      by blast
    from i(1) have "(i, cs ! i) \<in> set (enumerate 0 cs)" by (simp add: in_set_enumerate_eq)
    then have "?g (i, cs ! i) \<in> ?g ` set (enumerate 0 cs)" by (rule imageI)
    then have "?g (i, cs ! i) \<in> set rs" unfolding rs by (simp only: set_map)
    with i(2) show "Inl e \<in> set rs" by simp
  qed
  have inl_all: "Inl e \<in> set (r0 # rs) \<longleftrightarrow>
      writeThrows E (cacheKeyOf (metadataKeyOf p) r) = Some e
      \<or> (\<exists>i<length cs. writeThrows E (cacheKeyOf (createChunkKey p i) r) = Some e)" for e
    using inl_rs [of e] r0 by (auto split: option.splits)
  show ?thesis
  proof (cases "promise_all (r0 # rs)")
    case (Inl e)
    then have s: "storeInCache E p r v w = Some (Inl e, w2)"
      by (simp add: storeInCache_def split m c)
    from promise_all_Inl [OF Inl] inl_all [of e] have
      "writeThrows E (cacheKeyOf (metadataKeyOf p) r) = Some e
       \<or> (\<exists>i<length cs. writeThrows E (cacheKeyOf (createChunkKey p i) r) = Some e)"
      by simp
    with s show ?thesis by auto
  next
    case (Inr ys)
    then have s: "storeInCache E p r v w = Some (Inr (), w2)"
      by (simp add: storeInCache_def split m c)
    from Inr promise_all_Inr_iff [of "r0 # rs"] have "\<forall>e. Inl e \<notin> set (r0 # rs)" by blast
    with inl_all have
      "writeThrows E (cacheKeyOf (metadataKeyOf p) r) = None
       \<and> (\<forall>i<length cs. writeThrows E (cacheKeyOf (createChunkKey p i) r) = None)"
      by (metis not_Some_eq)
    with s show ?thesis by auto
  qed
qed

lemma chunk_loop_single:
  assumes "0 < length s" and "length s \<le> B"
  shows "chunk_loop s B 0 [] = Some [s]"
proof -
  have "chunk_loop s B 0 [] = chunk_loop s B (0 + B) ([] @ [slice s 0 (0 + B)])"
    using assms(1) by (subst chunk_loop.simps) simp
  also have "\<dots> = Some ([] @ [slice s 0 (0 + B)])"
    using assms(2) by (subst chunk_loop.simps) simp
  also have "slice s 0 (0 + B) = s"
    using assms(2) by (simp add: slice_def)
  finally show ?thesis by simp
qed

lemma JSON_stringify_a: "JSON_stringify (JSString [0x61]) = Inr (Some [0x22, 0x61, 0x22])"
  by (simp add: JSON_stringify_def QuoteJSONString_def quote_unit_def
      is_high_surrogate_def is_low_surrogate_def)

lemma stringify_js_a: "stringify (js_env f) (JSString [0x61]) = Inr (Some [0x22, 0x61, 0x22])"
  by (simp add: js_env_def JSON_stringify_a)

lemma stringify_failing_js_a:
  "stringify ((js_env f)\<lparr>writeThrows := g\<rparr>) (JSString [0x61]) = Inr (Some [0x22, 0x61, 0x22])"
  by (simp add: js_env_def JSON_stringify_a)

lemma chunk_loop_js_a:
  "chunk_loop [0x22, 0x61, 0x22 :: code_unit] SAFE_CHUNK_SIZE_BYTES 0 [] = Some [[0x22, 0x61, 0x22]]"
  by (rule chunk_loop_single) (simp_all add: SAFE_CHUNK_SIZE_BYTES_def)

text \<open>
  C3 fails: \<open>storeInCache\<close> awaits \<open>Promise.all\<close> of the writes and \<open>get\<close> awaits
  \<open>storeInCache\<close>, neither inside a \<open>try\<close>. With a cache whose writes fail, the producer
  returns the string \<open>a\<close> and \<open>get\<close> rejects with the error of the write.
\<close>

theorem storeback_failure_counterexample:
  "fetchData ((js_env (\<lambda>k. Inr (JSString [0x61])))\<lparr>writeThrows := (\<lambda>key. Some (Failure (ascii ''full'')))\<rparr>) 0
     = Inr (JSString [0x61])
   \<and> map_option fst
        (get ((js_env (\<lambda>k. Inr (JSString [0x61])))\<lparr>writeThrows := (\<lambda>key. Some (Failure (ascii ''full'')))\<rparr>)
           (ascii ''countries'') 3600 empty_world)
     = Some (Inl (Failure (ascii ''full'')))"
proof -
  let ?E = "(js_env (\<lambda>k. Inr (JSString [0x61])))\<lparr>writeThrows := (\<lambda>key. Some (Failure (ascii ''full'')))\<rparr>"
  let ?w2 = "empty_world\<lparr>fetchCalls := Suc (fetchCalls empty_world)\<rparr>"
  have f: "fetchData ?E 0 = Inr (JSString [0x61])" by (simp add: js_env_def)
  have enc: "stringify ?E (JSString [0x61]) = Inr (Some [0x22, 0x61, 0x22])"
    by (rule stringify_failing_js_a)
  from storeInCache_outcome [OF enc chunk_loop_js_a, where p = "ascii ''countries''" and r = 3600 and w = ?w2]
  obtain res w' where s: "storeInCache ?E (ascii ''countries'') 3600 (JSString [0x61]) ?w2 = Some (res, w')"
    and ok: "res = Inr () \<longleftrightarrow> False"
    and bad: "\<And>e. res = Inl e \<Longrightarrow> e = Failure (ascii ''full'')"
    by auto
  from ok bad have "res = Inl (Failure (ascii ''full''))" by (cases res) auto
  moreover have "fetchData ?E (fetchCalls empty_world) = Inr (JSString [0x61])"
    by (simp add: js_env_def)
  ultimately have "get ?E (ascii ''countries'') 3600 empty_world = Some (Inl (Failure (ascii ''full'')), w')"
    using s by (simp add: get_miss [OF retrieveFromCache_empty_world])
  with f show ?thesis by simp
qed

text \<open>
  C3, amended: on the miss path, when the producer returned a payload that has a JSON
  text, \<open>get\<close> returns. If the write of the metadata and the write of every chunk
  succeed, it returns the fresh payload. If one of these writes fails, it rejects, and
  the error is that of a write that failed: the failure of the store-back is propagated
  to the caller, and no value is returned.
\<close>

theorem storeback_outcome:
  assumes "retrieveFromCache E p r w = (Inr None, w1)"
    and "fetchData E (fetchCalls w1) = Inr v"
    and "stringify E v = Inr (Some jsonString)"
  shows "\<exists>cs res w'.
           chunk_loop jsonString SAFE_CHUNK_SIZE_BYTES 0 [] = Some cs
         \<and> get E p r w = Some (res, w')
         \<and> (writeThrows E (cacheKeyOf (metadataKeyOf p) r) = None
              \<and> (\<forall>i<length cs. writeThrows E (cacheKeyOf (createChunkKey p i) r) = None)
              \<longrightarrow> res = Inr v)
         \<and> (\<not> (writeThrows E (cacheKeyOf (metadataKeyOf p) r) = None
                 \<and> (\<forall>i<length cs. writeThrows E (cacheKeyOf (createChunkKey p i) r) = None))
              \<longrightarrow> (\<exists>e. res = Inl e
                     \<and> (writeThrows E (cacheKeyOf (metadataKeyOf p) r) = Some e
                          \<or> (\<exists>i<length cs. writeThrows E (cacheKeyOf (createChunkKey p i) r) = Some e))))"
proof -
  let ?w2 = "w1\<lparr>fetchCalls := Suc (fetchCalls w1)\<rparr>"
  have "0 < SAFE_CHUNK_SIZE_BYTES" by (simp add: SAFE_CHUNK_SIZE_BYTES_def)
  from chunk_loop_chunks [OF this, of jsonString] obtain cs where
    loop: "chunk_loop jsonString SAFE_CHUNK_SIZE_BYTES 0 [] = Some cs" by blast
  from storeInCache_outcome [OF assms(3) loop, of p r ?w2] obtain sres w' where
    s: "storeInCache E p r v ?w2 = Some (sres, w')"
    and ok: "sres = Inr () \<longleftrightarrow>
               writeThrows E (cacheKeyOf (metadataKeyOf p) r) = None
               \<and> (\<forall>i<length cs. writeThrows E (cacheKeyOf (createChunkKey p i) r) = None)"
    and bad: "\<And>e. sres = Inl e \<Longrightarrow>
               writeThrows E (cacheKeyOf (metadataKeyOf p) r) = Some e
               \<or> (\<exists>i<length cs. writeThrows E (cacheKeyOf (createChunkKey p i) r) = Some e)"
    by blast
  show ?thesis
  proof (cases sres)
    case (Inl e)
    with s assms(2) have g: "get E p r w = Some (Inl e, w')"
      by (simp add: get_miss [OF assms(1)])
    from Inl ok have failed:
      "\<not> (writeThrows E (cacheKeyOf (metadataKeyOf p) r) = None
          \<and> (\<forall>i<length cs. writeThrows E (cacheKeyOf (createChunkKey p i) r) = None))"
      by simp
    from bad [OF Inl] have which:
      "writeThrows E (cacheKeyOf (metadataKeyOf p) r) = Some e
       \<or> (\<exists>i<length cs. writeThrows E (cacheKeyOf (createChunkKey p i) r) = Some e)" .
    show ?thesis
      by (intro exI [of _ cs] exI [of _ "Inl e"] exI [of _ w'] conjI loop g impI)
        (use failed which in blast)+
  next
    case (Inr u)
    with s assms(2) have g: "get E p r w = Some (Inr v, w')"
      by (simp add: get_miss [OF assms(1)])
    from Inr ok have fine:
      "writeThrows E (cacheKeyOf (metadataKeyOf p) r) = None
       \<and> (\<forall>i<length cs. writeThrows E (cacheKeyOf (createChunkKey p i) r) = None)"
      by simp
    show ?thesis
      by (intro exI [of _ cs] exI [of _ "Inr v"] exI [of _ w'] conjI loop g impI)
        (use fine in blast)+
  qed
qed

text \<open>
  The amended statement at two inputs: a cache that takes every write, where \<open>get\<close>
  returns the payload, and a cache that refuses every write, where \<open>get\<close> rejects with
  the error of the write.
\<close>

theorem storeback_outcome_witness:
  "retrieveFromCache (js_env (\<lambda>k. Inr (JSString [0x61]))) (ascii ''countries'') 3600 empty_world
       = (Inr None, empty_world)
   \<and> fetchData (js_env (\<lambda>k. Inr (JSString [0x61]))) (fetchCalls empty_world) = Inr (JSString [0x61])
   \<and> stringify (js_env (\<lambda>k. Inr (JSString [0x61]))) (JSString [0x61]) = Inr (Some [0x22, 0x61, 0x22])
   \<and> (\<exists>w'. get (js_env (\<lambda>k. Inr (JSString [0x61]))) (ascii ''countries'') 3600 empty_world
               = Some (Inr (JSString [0x61]), w'))
   \<and> retrieveFromCache
         ((js_env (\<lambda>k. Inr (JSString [0x61])))\<lparr>writeThrows := (\<lambda>key. Some (Failure (ascii ''full'')))\<rparr>)
         (ascii ''countries'') 3600 empty_world
       = (Inr None, empty_world)
   \<and> fetchData
         ((js_env (\<lambda>k. Inr (JSString [0x61])))\<lparr>writeThrows := (\<lambda>key. Some (Failure (ascii ''full'')))\<rparr>)
         (fetchCalls empty_world)
       = Inr (JSString [0x61])
   \<and> stringify
         ((js_env (\<lambda>k. Inr (JSString [0x61])))\<lparr>writeThrows := (\<lambda>key. Some (Failure (ascii ''full'')))\<rparr>)
         (JSString [0x61])
       = Inr (Some [0x22, 0x61, 0x22])
   \<and> (\<exists>w'. get ((js_env (\<lambda>k. Inr (JSString [0x61])))\<lparr>writeThrows := (\<lambda>key. Some (Failure (ascii ''full'')))\<rparr>)
               (ascii ''countries'') 3600 empty_world
               = Some (Inl (Failure (ascii ''full'')), w'))"
proof -
  let ?E = "js_env (\<lambda>k. Inr (JSString [0x61]))"
  let ?F = "(js_env (\<lambda>k. Inr (JSString [0x61])))\<lparr>writeThrows := (\<lambda>key. Some (Failure (ascii ''full'')))\<rparr>"
  have f: "fetchData ?E (fetchCalls empty_world) = Inr (JSString [0x61])" by (simp add: js_env_def)
  have f': "fetchData ?F (fetchCalls empty_world) = Inr (JSString [0x61])" by (simp add: js_env_def)
  have enc': "stringify ?F (JSString [0x61]) = Inr (Some [0x22, 0x61, 0x22])"
    by (rule stringify_failing_js_a)
  have nothrow: "writeThrows ?E key = None" for key by (simp add: js_env_def)
  have throws: "writeThrows ?F key = Some (Failure (ascii ''full''))" for key by simp
  from storeback_outcome [OF retrieveFromCache_empty_world f stringify_js_a,
      where p = "ascii ''countries''" and r = 3600]
  have good: "\<exists>w'. get ?E (ascii ''countries'') 3600 empty_world = Some (Inr (JSString [0x61]), w')"
    by (auto simp: nothrow)
  from storeback_outcome [OF retrieveFromCache_empty_world f' enc',
      where p = "ascii ''countries''" and r = 3600]
  have bad: "\<exists>w'. get ?F (ascii ''countries'') 3600 empty_world = Some (Inl (Failure (ascii ''full'')), w')"
    by (auto simp: throws)
  from good bad f f' enc' show ?thesis
    by (simp add: retrieveFromCache_empty_world stringify_js_a)
qed

section \<open>The key of the metadata\<close>

text \<open>
  C9 fails: the key of the metadata is not the prefix followed by \<open>:metadata\<close>.
\<close>

theorem metadata_key_counterexample:
  "metadataKeyOf (ascii ''countries'') \<noteq> ascii ''countries'' @ ascii '':metadata''"
  by (simp add: metadataKeyOf_def ascii_def)

text \<open>
  C9, amended: the key of the metadata is the literal \<open>metadata::\<close> followed by the
  prefix, and the cache holds the record under that key followed by \<open>:\<close> and
  \<open>revalidateSeconds\<close>: when the write does not fail and the cache has no entry for it
  yet, after \<open>storeInCache\<close> the entry is the number of chunks of the payload.
\<close>

theorem metadata_key_derivation:
  assumes "stringify E v = Inr (Some jsonString)"
    and "writeThrows E (ascii ''metadata::'' @ p @ ascii '':'' @ decimal r) = None"
    and "cacheEntries w (ascii ''metadata::'' @ p @ ascii '':'' @ decimal r) = None"
  shows "metadataKeyOf p = ascii ''metadata::'' @ p
       \<and> (\<exists>res w' cs. storeInCache E p r v w = Some (res, w')
             \<and> chunk_loop jsonString SAFE_CHUNK_SIZE_BYTES 0 [] = Some cs
             \<and> cacheEntries w' (ascii ''metadata::'' @ p @ ascii '':'' @ decimal r)
                 = Some (Metadata (length cs)))"
proof -
  let ?mk = "cacheKeyOf (metadataKeyOf p) r"
  let ?f = "\<lambda>(index, chunk). storeChunk E (createChunkKey p index) chunk r"
  have key: "?mk = ascii ''metadata::'' @ p @ ascii '':'' @ decimal r"
    by (simp add: cacheKeyOf_def metadataKeyOf_def)
  have "0 < SAFE_CHUNK_SIZE_BYTES" by (simp add: SAFE_CHUNK_SIZE_BYTES_def)
  from chunk_loop_chunks [OF this, of jsonString] obtain cs where
    loop: "chunk_loop jsonString SAFE_CHUNK_SIZE_BYTES 0 [] = Some cs" by blast
  have split: "splitIntoChunks E v SAFE_CHUNK_SIZE_BYTES = Some (Inr (cs, jsonString))"
    using assms(1) loop by (simp add: splitIntoChunks_def)
  let ?w1 = "w\<lparr>requestStore := (requestStore w)(?mk \<mapsto> Metadata (length cs)),
                cacheEntries := (cacheEntries w)(?mk \<mapsto> Metadata (length cs))\<rparr>"
  have m: "storeMetadata E (metadataKeyOf p) (length cs) r w = (Inr (), ?w1)"
    using assms(2,3) by (simp add: storeMetadata_def storeCachedValue_ok key)
  obtain rs w2 where c: "run_all ?f (enumerate 0 cs) ?w1 = (rs, w2)"
    by (cases "run_all ?f (enumerate 0 cs) ?w1")
  have "cacheEntries (snd (run_all ?f (enumerate 0 cs) ?w1)) ?mk = cacheEntries ?w1 ?mk"
  proof (rule run_all_other_key)
    fix k :: "nat \<times> jsstring" and w0
    show "cacheEntries (snd (?f k w0)) ?mk = cacheEntries w0 ?mk"
      using metadata_key_not_chunk_key [of p r "fst k"]
      by (cases k) (simp add: storeChunk_def storeCachedValue_other_key)
  qed
  with c have kept: "cacheEntries w2 ?mk = Some (Metadata (length cs))" by simp
  have "\<exists>res. storeInCache E p r v w = Some (res, w2)"
    by (simp add: storeInCache_def split m c split: sum.splits)
  with loop kept show ?thesis
    unfolding key by (auto simp: metadataKeyOf_def)
qed

theorem metadata_key_derivation_witness:
  "stringify (js_env (\<lambda>k. Inr (JSString [0x61, 0x62, 0x63, 0x64]))) (JSString [0x61, 0x62, 0x63, 0x64])
       = Inr (Some [0x22, 0x61, 0x62, 0x63, 0x64, 0x22])
   \<and> writeThrows (js_env (\<lambda>k. Inr (JSString [0x61, 0x62, 0x63, 0x64])))
       (ascii ''metadata::'' @ ascii ''countries'' @ ascii '':'' @ decimal 3600) = None
   \<and> cacheEntries empty_world (ascii ''metadata::'' @ ascii ''countries'' @ ascii '':'' @ decimal 3600) = None
   \<and> metadataKeyOf (ascii ''countries'') = ascii ''metadata::'' @ ascii ''countries''
   \<and> (\<exists>res w' cs. storeInCache (js_env (\<lambda>k. Inr (JSString [0x61, 0x62, 0x63, 0x64])))
                      (ascii ''countries'') 3600 (JSString [0x61, 0x62, 0x63, 0x64]) empty_world = Some (res, w')
         \<and> chunk_loop [0x22, 0x61, 0x62, 0x63, 0x64, 0x22 :: code_unit] SAFE_CHUNK_SIZE_BYTES 0 [] = Some cs
         \<and> cacheEntries w' (ascii ''metadata::'' @ ascii ''countries'' @ ascii '':'' @ decimal 3600)
             = Some (Metadata (length cs)))"
proof -
  let ?E = "js_env (\<lambda>k. Inr (JSString [0x61, 0x62, 0x63, 0x64]))"
  have h2: "writeThrows ?E (ascii ''metadata::'' @ ascii ''countries'' @ ascii '':'' @ decimal 3600) = None"
    by (simp add: js_env_def)
  have h3: "cacheEntries empty_world (ascii ''metadata::'' @ ascii ''countries'' @ ascii '':'' @ decimal 3600) = None"
    by (simp add: empty_world_def)
  from metadata_key_derivation [OF stringify_js_abcd h2 h3] h2 h3
    stringify_js_abcd [of "\<lambda>k. Inr (JSString [0x61, 0x62, 0x63, 0x64])"]
  show ?thesis by blast
qed

section \<open>Code units are not bytes\<close>

lemma utf8_length_Cons_ascii: "c < 0x80 \<Longrightarrow> utf8_length (c # s) = 1 + utf8_length s"
  by (cases s) simp_all

lemma utf8_length_Cons_two_bytes:
  "\<not> c < 0x80 \<Longrightarrow> c < 0x800 \<Longrightarrow> utf8_length (c # s) = 2 + utf8_length s"
  by (cases s) simp_all

lemma utf8_length_e_acute: "utf8_length (replicate n 0xE9 @ [0x22]) = 2 * n + 1"
  by (induction n) (simp_all add: utf8_length_Cons_two_bytes)

lemma quote_units_plain:
  assumes "\<And>c. c \<in> set s \<Longrightarrow> quote_unit c = [c] \<and> \<not> is_high_surrogate c"
  shows "quote_units s = s"
  using assms
proof (induction s rule: quote_units.induct)
  case 1
  show ?case by simp
next
  case (2 c)
  then show ?case by simp
next
  case (3 c d cs)
  from "3.prems" [of c] have c: "quote_unit c = [c]" "\<not> is_high_surrogate c" by simp_all
  have "quote_units (d # cs) = d # cs"
    by (rule "3.IH"(2)) (simp_all add: c(2) "3.prems")
  with c show ?case by simp
qed

lemma quote_unit_e_acute: "quote_unit 0xE9 = [0xE9] \<and> \<not> is_high_surrogate 0xE9"
  by (simp add: quote_unit_def is_high_surrogate_def is_low_surrogate_def)

lemma quote_unit_a: "quote_unit 0x61 = [0x61] \<and> \<not> is_high_surrogate 0x61"
  by (simp add: quote_unit_def is_high_surrogate_def is_low_surrogate_def)

lemma QuoteJSONString_e_acute: "QuoteJSONString (replicate n 0xE9) = 0x22 # replicate n 0xE9 @ [0x22]"
  using quote_units_plain [of "replicate n 0xE9"] quote_unit_e_acute
  by (simp add: QuoteJSONString_def)

lemma QuoteJSONString_a: "QuoteJSONString (replicate n 0x61) = 0x22 # replicate n 0x61 @ [0x22]"
  using quote_units_plain [of "replicate n 0x61"] quote_unit_a
  by (simp add: QuoteJSONString_def)

text \<open>
  C2, at a failing input. The payload is the string of 1,000,000 letters e with an acute accent (U+00E9, one
  code unit, two bytes in UTF-8). Its JSON text has 1,000,002 code units, which is below
  the bound of 1,500,000, so \<open>splitIntoChunks\<close> leaves it in one chunk; the chunk has
  2,000,002 bytes, which is above the bound.
\<close>

theorem chunk_exceeds_byte_bound:
  "splitIntoChunks (js_env (\<lambda>k. Inr (JSString (replicate 1000000 0xE9))))
       (JSString (replicate 1000000 0xE9)) SAFE_CHUNK_SIZE_BYTES
     = Some (Inr ([0x22 # replicate 1000000 0xE9 @ [0x22]], 0x22 # replicate 1000000 0xE9 @ [0x22]))
   \<and> length (0x22 # replicate 1000000 (0xE9 :: code_unit) @ [0x22]) = 1000002
   \<and> utf8_length (0x22 # replicate 1000000 0xE9 @ [0x22]) = 2000002
   \<and> SAFE_CHUNK_SIZE_BYTES < utf8_length (0x22 # replicate 1000000 0xE9 @ [0x22])"
proof -
  let ?t = "0x22 # replicate 1000000 (0xE9 :: code_unit) @ [0x22]"
  have "chunk_loop ?t SAFE_CHUNK_SIZE_BYTES 0 [] = Some [?t]"
    by (rule chunk_loop_single) (simp_all add: SAFE_CHUNK_SIZE_BYTES_def)
  then have a: "splitIntoChunks (js_env (\<lambda>k. Inr (JSString (replicate 1000000 0xE9))))
       (JSString (replicate 1000000 0xE9)) SAFE_CHUNK_SIZE_BYTES = Some (Inr ([?t], ?t))"
    by (simp add: splitIntoChunks_def js_env_def JSON_stringify_def QuoteJSONString_e_acute)
  have b: "utf8_length ?t = 2000002"
    by (simp add: utf8_length_Cons_ascii utf8_length_e_acute)
  from a b show ?thesis by (simp add: SAFE_CHUNK_SIZE_BYTES_def)
qed

section \<open>Losing one chunk\<close>

lemma string_body_a: "string_body (replicate n 0x61 @ [0x22]) = Some (replicate n 0x61, [])"
  by (induction n) simp_all

lemma JSON_parse_quoted_a: "JSON_parse (0x22 # replicate n 0x61 @ [0x22]) = Inr (JSString (replicate n 0x61))"
  by (simp add: JSON_parse_def is_json_space_def string_body_a)

lemma chunk_loop_three:
  "chunk_loop (0x22 # replicate 2999999 (0x61 :: code_unit) @ [0x22]) SAFE_CHUNK_SIZE_BYTES 0 []
     = Some [0x22 # replicate 1499999 0x61, replicate 1500000 0x61, [0x22]]"
proof -
  let ?t = "0x22 # replicate 2999999 (0x61 :: code_unit) @ [0x22]"
  have len: "length ?t = 3000001" by simp
  have s0: "slice ?t 0 (0 + 1500000) = 0x22 # replicate 1499999 0x61"
    by (simp add: slice_def)
  have s1: "slice ?t 1500000 (1500000 + 1500000) = replicate 1500000 0x61"
    by (simp add: slice_def)
  have s2: "slice ?t 3000000 (3000000 + 1500000) = [0x22]"
    by (simp add: slice_def)
  have "chunk_loop ?t 1500000 0 [] = chunk_loop ?t 1500000 (0 + 1500000) ([] @ [slice ?t 0 (0 + 1500000)])"
    by (subst chunk_loop.simps) (simp only: len, simp)
  also have "\<dots> = chunk_loop ?t 1500000 1500000 [0x22 # replicate 1499999 0x61]"
    by (simp only: s0) simp
  also have "\<dots> = chunk_loop ?t 1500000 (1500000 + 1500000)
                      ([0x22 # replicate 1499999 0x61] @ [slice ?t 1500000 (1500000 + 1500000)])"
    by (subst chunk_loop.simps) (simp only: len, simp)
  also have "\<dots> = chunk_loop ?t 1500000 3000000 [0x22 # replicate 1499999 0x61, replicate 1500000 0x61]"
    by (simp only: s1) simp
  also have "\<dots> = chunk_loop ?t 1500000 (3000000 + 1500000)
                      ([0x22 # replicate 1499999 0x61, replicate 1500000 0x61]
                       @ [slice ?t 3000000 (3000000 + 1500000)])"
    by (subst chunk_loop.simps) (simp only: len, simp)
  also have "\<dots> = chunk_loop ?t 1500000 4500000
                      [0x22 # replicate 1499999 0x61, replicate 1500000 0x61, [0x22]]"
    by (simp only: s2) simp
  also have "\<dots> = Some [0x22 # replicate 1499999 0x61, replicate 1500000 0x61, [0x22]]"
    by (subst chunk_loop.simps) (simp only: len, simp)
  finally show ?thesis by (simp only: SAFE_CHUNK_SIZE_BYTES_def)
qed

text \<open>
  C1, at a failing input. The producer returns the string of 2,999,999 letters \<open>a\<close>; its
  JSON text has 3,000,001 code units and is stored as three chunks: the opening quote
  with 1,499,999 letters, 1,500,000 letters, and the closing quote. The first \<open>get\<close>, on
  the empty store, stores them and returns the payload. Then the cache loses the entry of
  chunk 1 (the metadata and the two other chunks remain) in a new invocation, where
  \<open>requestStore\<close> is empty. \<open>retrieveChunk\<close> for chunk 1 gives \<open>null\<close>, which is filtered
  out; the two chunks that are left concatenate to a well-formed JSON string, so the next
  \<open>get\<close> does not call the producer and returns a string of 1,499,999 letters.
\<close>

theorem partial_loss_returns_other_payload:
  "\<exists>w1. get (js_env (\<lambda>k. Inr (JSString (replicate 2999999 0x61)))) (ascii ''countries'') 3600 empty_world
           = Some (Inr (JSString (replicate 2999999 0x61)), w1)
      \<and> fetchCalls w1 = 1
      \<and> cacheEntries w1 (cacheKeyOf (metadataKeyOf (ascii ''countries'')) 3600) = Some (Metadata 3)
      \<and> cacheEntries w1 (cacheKeyOf (createChunkKey (ascii ''countries'') 1) 3600)
           = Some (ChunkData (replicate 1500000 0x61))
      \<and> get (js_env (\<lambda>k. Inr (JSString (replicate 2999999 0x61)))) (ascii ''countries'') 3600
           (w1\<lparr>requestStore := Map.empty,
               cacheEntries := (cacheEntries w1)(cacheKeyOf (createChunkKey (ascii ''countries'') 1) 3600 := None)\<rparr>)
           = Some (Inr (JSString (replicate 1499999 0x61)),
                   w1\<lparr>requestStore := Map.empty,
                       cacheEntries := (cacheEntries w1)(cacheKeyOf (createChunkKey (ascii ''countries'') 1) 3600 := None)\<rparr>)"
proof -
  let ?A = "JSString (replicate 2999999 0x61)"
  let ?E = "js_env (\<lambda>k. Inr ?A)"
  let ?p = "ascii ''countries''"
  let ?t = "0x22 # replicate 2999999 (0x61 :: code_unit) @ [0x22]"
  let ?c0 = "0x22 # replicate 1499999 (0x61 :: code_unit)"
  let ?c1 = "replicate 1500000 (0x61 :: code_unit)"
  let ?c2 = "[0x22 :: code_unit]"
  let ?mk = "cacheKeyOf (metadataKeyOf ?p) 3600"
  let ?ck = "\<lambda>i. cacheKeyOf (createChunkKey ?p i) 3600"
  let ?w2 = "empty_world\<lparr>fetchCalls := Suc (fetchCalls empty_world)\<rparr>"
  have enc: "stringify ?E ?A = Inr (Some ?t)"
    by (simp add: js_env_def JSON_stringify_def QuoteJSONString_a)
  have nowrite: "writeThrows ?E key = None" and noread: "readThrows ?E key = None" for key
    by (simp_all add: js_env_def)
  have absent: "cacheEntries ?w2 key = None" for key
    by (simp add: empty_world_def)
  from storeInCache_populates [of ?E ?A ?t ?p 3600 ?w2, OF enc nowrite nowrite absent absent]
  obtain cs w1 where
    store: "storeInCache ?E ?p 3600 ?A ?w2 = Some (Inr (), w1)"
    and loop: "chunk_loop ?t SAFE_CHUNK_SIZE_BYTES 0 [] = Some cs"
    and fc: "fetchCalls w1 = fetchCalls ?w2"
    and meta: "cacheEntries w1 ?mk = Some (Metadata (length cs))"
    and chunks: "\<And>i. i < length cs \<Longrightarrow> cacheEntries w1 (?ck i) = Some (ChunkData (cs ! i))"
    by blast
  from loop chunk_loop_three have cs: "cs = [?c0, ?c1, ?c2]" by simp
  have fetch: "fetchData ?E (fetchCalls empty_world) = Inr ?A" by (simp add: js_env_def)
  have first: "get ?E ?p 3600 empty_world = Some (Inr ?A, w1)"
    using fetch store by (simp add: get_miss [OF retrieveFromCache_empty_world])
  have calls: "fetchCalls w1 = 1" using fc by (simp add: empty_world_def)
  have meta3: "cacheEntries w1 ?mk = Some (Metadata 3)" using meta cs by simp
  have e0: "cacheEntries w1 (?ck 0) = Some (ChunkData ?c0)" using chunks [of 0] cs by simp
  have e1: "cacheEntries w1 (?ck 1) = Some (ChunkData ?c1)" using chunks [of 1] cs by simp
  have e2: "cacheEntries w1 (?ck 2) = Some (ChunkData ?c2)" using chunks [of 2] cs by simp
  let ?w = "w1\<lparr>requestStore := Map.empty, cacheEntries := (cacheEntries w1)(?ck 1 := None)\<rparr>"
  have k01: "?ck 0 \<noteq> ?ck 1" using chunk_keys_distinct [of ?p 0 3600 1] by auto
  have k21: "?ck 2 \<noteq> ?ck 1" using chunk_keys_distinct [of ?p 2 3600 1] by auto
  have km1: "?mk \<noteq> ?ck 1" and km1': "?mk \<noteq> ?ck (Suc 0)"
    by (rule metadata_key_not_chunk_key)+
  have k01': "?ck 0 \<noteq> ?ck (Suc 0)" using chunk_keys_distinct [of ?p 0 3600 "Suc 0"] by auto
  have k21': "?ck 2 \<noteq> ?ck (Suc 0)" using chunk_keys_distinct [of ?p 2 3600 "Suc 0"] by auto
  have m: "retrieveMetadata ?E (metadataKeyOf ?p) 3600 ?w = (Inr (Some (Metadata 3)), ?w)"
    unfolding retrieveMetadata_eq
    by (rule getCachedValue_hit) (simp_all add: noread meta3 km1 km1')
  have r0: "retrieveChunk ?E (createChunkKey ?p 0) 3600 ?w = (Inr (Some (ChunkData ?c0)), ?w)"
    unfolding retrieveChunk_eq
    by (rule getCachedValue_hit) (simp_all add: noread e0 k01 k01')
  have r1: "retrieveChunk ?E (createChunkKey ?p 1) 3600 ?w = (Inr None, ?w)"
    unfolding retrieveChunk_eq
    by (rule getCachedValue_absent) simp_all
  have r2: "retrieveChunk ?E (createChunkKey ?p 2) 3600 ?w = (Inr (Some (ChunkData ?c2)), ?w)"
    unfolding retrieveChunk_eq
    by (rule getCachedValue_hit) (simp_all add: noread e2 k21 k21')
  have upt3: "[0..<3] = [0, 1, 2 :: nat]" by (simp add: upt_rec)
  have run: "run_all (\<lambda>chunkKey. retrieveChunk ?E chunkKey 3600)
               (map (createChunkKey ?p) [0, 1, 2]) ?w
             = ([Inr (Some (ChunkData ?c0)), Inr None, Inr (Some (ChunkData ?c2))], ?w)"
    by (simp only: list.map run_all.simps r0 r1 r2 prod.case)
  have parse: "parse ?E (?c0 @ ?c2) = Inr (JSString (replicate 1499999 0x61))"
    using JSON_parse_quoted_a [of 1499999] by (simp add: js_env_def)
  have "retrieveFromCache ?E ?p 3600 ?w = (Inr (Some (JSString (replicate 1499999 0x61), Some 3)), ?w)"
    unfolding retrieveFromCache_def
    by (simp only: m prod.case sum.case option.case falsy.simps chunkCountOf.simps if_False Let_def
        upt3 run)
      (simp add: reassembleChunks_def parse [simplified])
  then have second: "get ?E ?p 3600 ?w = Some (Inr (JSString (replicate 1499999 0x61)), ?w)"
    by (rule get_hit)
  from first calls meta3 e1 second show ?thesis by blast
qed

text \<open>
  With the count check of \<open>src/unnamed/part_000\<close>, a retrieval of \<open>chunkCount\<close> results of
  which one is \<open>null\<close> is never a hit, whatever the remaining chunks parse to.
\<close>

lemma count_check_rejects_partial_retrieval:
  assumes "length chunks = expectedChunkCount" and "None \<in> set chunks"
  shows "validateAndReassemble_part_000 E expectedChunkCount chunks = None"
proof -
  from assms(2) have "length (filter (\<lambda>chunk. chunk \<noteq> None) chunks) < length chunks"
    by (intro length_filter_less [of None]) simp_all
  with assms(1) show ?thesis by (simp add: validateAndReassemble_part_000_def)
qed

end
